theory Spec2Isabelle
  imports Main "HOL-Library.Multiset"
begin

section \<open>Go strings, runes and UTF-8\<close>

text \<open>
  A Go string is a sequence of bytes, here a \<^typ>\<open>string\<close> (a list of 8-bit
  characters). The program never indexes bytes: it walks a string with
  \<^verbatim>\<open>for _, r := range text\<close> and converts with \<^verbatim>\<open>[]rune(phrase)\<close>,
  \<^verbatim>\<open>string(runes)\<close> and \<^verbatim>\<open>string(r)\<close>. All of these go through the UTF-8
  decoder and encoder of the Go runtime, modelled below. A rune is an int32 code point;
  every rune the program handles comes out of the decoder or of \<^verbatim>\<open>unicode.ToUpper\<close>
  and is non-negative, so runes are natural numbers here.

  The bit operations of the runtime are written arithmetically: masking with 0x3F is
  \<open>mod 64\<close>, a left shift by 6 is \<open>* 64\<close>, a right shift by 6 is \<open>div 64\<close>, and the
  bitwise or of disjoint bit fields is \<open>+\<close>.
\<close>

type_synonym rune = nat

definition runeError :: rune where
  "runeError = 0xFFFD"

text \<open>A continuation byte lies between \<^verbatim>\<open>locb = 0x80\<close> and \<^verbatim>\<open>hicb = 0xBF\<close>.\<close>

definition cont :: "char \<Rightarrow> bool" where
  "cont c \<longleftrightarrow> (0x80::nat) \<le> of_char c \<and> (of_char c :: nat) \<le> 0xBF"

definition payload :: "char \<Rightarrow> nat" where
  "payload c = of_char c mod 64"

text \<open>
  \<^verbatim>\<open>decoderune\<close>: the rune at the start of \<open>s\<close> and its width in bytes. A byte that
  starts no well-formed encoding (a stray continuation byte, a truncated, overlong or
  surrogate encoding, a value above U+10FFFF) decodes to U+FFFD with width 1. The first
  branch is the ASCII fast path of the range loop.
\<close>

definition decoderune :: "string \<Rightarrow> rune \<times> nat" where
  "decoderune s =
     (if s = [] then (runeError, 1)
      else
        (let b0 = (of_char (s ! 0) :: nat) in
         if b0 < 0x80 then (b0, 1)
         else if 0xC0 \<le> b0 \<and> b0 < 0xE0 then
           (if 1 < length s \<and> cont (s ! 1) then
              (let r = (b0 mod 32) * 64 + payload (s ! 1)
               in if 0x7F < r then (r, 2) else (runeError, 1))
            else (runeError, 1))
         else if 0xE0 \<le> b0 \<and> b0 < 0xF0 then
           (if 2 < length s \<and> cont (s ! 1) \<and> cont (s ! 2) then
              (let r = (b0 mod 16) * 4096 + payload (s ! 1) * 64 + payload (s ! 2)
               in if 0x7FF < r \<and> \<not> (0xD800 \<le> r \<and> r \<le> 0xDFFF) then (r, 3)
                  else (runeError, 1))
            else (runeError, 1))
         else if 0xF0 \<le> b0 \<and> b0 < 0xF8 then
           (if 3 < length s \<and> cont (s ! 1) \<and> cont (s ! 2) \<and> cont (s ! 3) then
              (let r = (b0 mod 8) * 262144 + payload (s ! 1) * 4096 + payload (s ! 2) * 64
                       + payload (s ! 3)
               in if 0xFFFF < r \<and> r \<le> 0x10FFFF then (r, 4) else (runeError, 1))
            else (runeError, 1))
         else (runeError, 1)))"

lemma decoderune_width: "1 \<le> snd (decoderune s)"
  by (simp add: decoderune_def Let_def)

text \<open>
  The steps of \<^verbatim>\<open>for i, r := range s\<close>: each rune with the number of bytes it was
  decoded from.
\<close>

function range_string :: "string \<Rightarrow> (rune \<times> nat) list" where
  "range_string s =
     (if s = [] then []
      else (case decoderune s of (r, n) \<Rightarrow> (r, n) # range_string (drop n s)))"
  by pat_completeness auto
termination
proof (relation "measure length", goal_cases)
  case 1
  show ?case by simp
next
  case (2 s r n)
  then have "snd (decoderune s) = n" by (metis snd_conv)
  then have "1 \<le> n" using decoderune_width [of s] by simp
  with 2 show ?case by (cases s) auto
qed

text \<open>\<^verbatim>\<open>[]rune(s)\<close>, and the runes a range loop over \<open>s\<close> sees.\<close>

definition runes :: "string \<Rightarrow> rune list" where
  "runes s = map fst (range_string s)"

text \<open>
  \<^verbatim>\<open>encoderune\<close>, which is also \<^verbatim>\<open>string(r)\<close>: a surrogate or a value above
  U+10FFFF is written as U+FFFD.
\<close>

definition encoderune :: "rune \<Rightarrow> string" where
  "encoderune r =
     (if r \<le> 0x7F then [char_of r]
      else if r \<le> 0x7FF then [char_of (0xC0 + r div 64), char_of (0x80 + r mod 64)]
      else if 0x10FFFF < r \<or> (0xD800 \<le> r \<and> r \<le> 0xDFFF) then [CHR 0xEF, CHR 0xBF, CHR 0xBD]
      else if r \<le> 0xFFFF then
        [char_of (0xE0 + r div 4096), char_of (0x80 + r div 64 mod 64), char_of (0x80 + r mod 64)]
      else
        [char_of (0xF0 + r div 262144), char_of (0x80 + r div 4096 mod 64),
         char_of (0x80 + r div 64 mod 64), char_of (0x80 + r mod 64)])"

text \<open>\<^verbatim>\<open>string(runes)\<close>.\<close>

definition string_of_runes :: "rune list \<Rightarrow> string" where
  "string_of_runes rs = concat (map encoderune rs)"

text \<open>
  Two notions used in statements only. A scalar value is a code point that has an
  encoding of its own. A string is well-formed UTF-8 when no step of the range loop
  falls into the error branch of the decoder (the meaning of \<^verbatim>\<open>utf8.ValidString\<close>).
\<close>

definition scalar :: "rune \<Rightarrow> bool" where
  "scalar r \<longleftrightarrow> r \<le> 0x10FFFF \<and> \<not> (0xD800 \<le> r \<and> r \<le> 0xDFFF)"

definition valid_utf8 :: "string \<Rightarrow> bool" where
  "valid_utf8 s = list_all (\<lambda>p. p \<noteq> (runeError, 1)) (range_string s)"

section \<open>The Unicode tables the program consults\<close>

text \<open>
  \<^verbatim>\<open>unicode.Is(unicode.Han, r)\<close>: the range table of the Han script in the Go standard
  library (Unicode 15.0.0). The claims depend only on three facts about it: a Han rune
  is a scalar value above ASCII, and U+FFFD is not Han.
\<close>

definition han :: "rune \<Rightarrow> bool" where
  "han r \<longleftrightarrow>
     (0x2E80 \<le> r \<and> r \<le> 0x2E99) \<or> (0x2E9B \<le> r \<and> r \<le> 0x2EF3) \<or>
     (0x2F00 \<le> r \<and> r \<le> 0x2FD5) \<or> r = 0x3005 \<or> r = 0x3007 \<or>
     (0x3021 \<le> r \<and> r \<le> 0x3029) \<or> (0x3038 \<le> r \<and> r \<le> 0x303B) \<or>
     (0x3400 \<le> r \<and> r \<le> 0x4DBF) \<or> (0x4E00 \<le> r \<and> r \<le> 0x9FFF) \<or>
     (0xF900 \<le> r \<and> r \<le> 0xFA6D) \<or> (0xFA70 \<le> r \<and> r \<le> 0xFAD9) \<or>
     (0x16FE2 \<le> r \<and> r \<le> 0x16FE3) \<or> (0x16FF0 \<le> r \<and> r \<le> 0x16FF1) \<or>
     (0x20000 \<le> r \<and> r \<le> 0x2A6DF) \<or> (0x2A700 \<le> r \<and> r \<le> 0x2B739) \<or>
     (0x2B740 \<le> r \<and> r \<le> 0x2B81D) \<or> (0x2B820 \<le> r \<and> r \<le> 0x2CEA1) \<or>
     (0x2CEB0 \<le> r \<and> r \<le> 0x2EBE0) \<or> (0x2F800 \<le> r \<and> r \<le> 0x2FA1D) \<or>
     (0x30000 \<le> r \<and> r \<le> 0x3134A) \<or> (0x31350 \<le> r \<and> r \<le> 0x323AF)"

text \<open>
  \<^verbatim>\<open>unicode.ToUpper\<close>. Its ASCII branch is code; above ASCII it looks the rune up in
  the table \<^verbatim>\<open>unicode.CaseRanges\<close>, which is taken as the parameter \<open>tab\<close>
  (the upper-case mapping of the table, the rune itself where the table has no entry).
\<close>

definition toUpper :: "(rune \<Rightarrow> rune) \<Rightarrow> rune \<Rightarrow> rune" where
  "toUpper tab r =
     (if r \<le> 0x7F then (if 0x61 \<le> r \<and> r \<le> 0x7A then r - 0x20 else r)
      else tab r)"

text \<open>
  The Unicode tables have no case mapping for a Han rune. Theorems that need this fact
  about the table assume it.
\<close>

definition han_caseless :: "(rune \<Rightarrow> rune) \<Rightarrow> bool" where
  "han_caseless tab = (\<forall>r. han r \<longrightarrow> tab r = r)"

text \<open>
  An instance of the table for evaluating examples: upper-casing of the Latin-1 letters,
  every other rune left as it is.
\<close>

definition latin1_upper :: "rune \<Rightarrow> rune" where
  "latin1_upper r =
     (if (0xE0 \<le> r \<and> r \<le> 0xF6) \<or> (0xF8 \<le> r \<and> r \<le> 0xFE) then r - 0x20
      else if r = 0xFF then 0x178
      else if r = 0xB5 then 0x39C
      else r)"

section \<open>Script filter, character extractor, capitalisation\<close>

text \<open>\<^verbatim>\<open>isChineseText\<close>: the loop returns false at the first rune that is neither Han,
  a space nor a hyphen.\<close>

fun isChineseLoop :: "rune list \<Rightarrow> bool" where
  "isChineseLoop [] = True"
| "isChineseLoop (r # rs) =
     (if \<not> han r \<and> r \<noteq> 0x20 \<and> r \<noteq> 0x2D then False else isChineseLoop rs)"

definition isChineseText :: "string \<Rightarrow> bool" where
  "isChineseText text = isChineseLoop (runes text)"

text \<open>\<^verbatim>\<open>extractChineseCharacters\<close>: the loop appends \<^verbatim>\<open>string(r)\<close> for each Han rune.\<close>

fun extractLoop :: "rune list \<Rightarrow> string list \<Rightarrow> string list" where
  "extractLoop [] characters = characters"
| "extractLoop (r # rs) characters =
     extractLoop rs (if han r then characters @ [encoderune r] else characters)"

definition extractChineseCharacters :: "string \<Rightarrow> string list" where
  "extractChineseCharacters text = extractLoop (runes text) []"

text \<open>\<^verbatim>\<open>capitalizePhrase\<close>: the phrase as runes, the first one upper-cased, and back.\<close>

definition capitalizePhrase :: "(rune \<Rightarrow> rune) \<Rightarrow> string \<Rightarrow> string" where
  "capitalizePhrase tab phrase =
     (case runes phrase of
        [] \<Rightarrow> string_of_runes []
      | r # rs \<Rightarrow> string_of_runes (toUpper tab r # rs))"

section \<open>Frequency ranking\<close>

text \<open>
  \<^verbatim>\<open>countFrequencies\<close>: a Go map from string to int, here a partial function. Reading
  a missing key gives 0. Counts only grow from 0 by 1 per item, so they are natural
  numbers (an int of 64 bits cannot overflow on a slice that fits in memory).
\<close>

definition freq :: "(string \<rightharpoonup> nat) \<Rightarrow> string \<Rightarrow> nat" where
  "freq counts k = (case counts k of None \<Rightarrow> 0 | Some c \<Rightarrow> c)"

text \<open>\<^verbatim>\<open>counts[k]++\<close>.\<close>

definition increment :: "(string \<rightharpoonup> nat) \<Rightarrow> string \<Rightarrow> (string \<rightharpoonup> nat)" where
  "increment counts k = counts(k \<mapsto> freq counts k + 1)"

fun countLoop :: "(rune \<Rightarrow> rune) \<Rightarrow> string list \<Rightarrow> (string \<rightharpoonup> nat) \<Rightarrow> (string \<rightharpoonup> nat)" where
  "countLoop tab [] counts = counts"
| "countLoop tab (item # content) counts =
     countLoop tab content (increment counts (capitalizePhrase tab item))"

definition countFrequencies :: "(rune \<Rightarrow> rune) \<Rightarrow> string list \<Rightarrow> (string \<rightharpoonup> nat)" where
  "countFrequencies tab content = countLoop tab content Map.empty"

text \<open>
  \<^verbatim>\<open>sortByFrequency\<close> ranges over the map and sorts with \<^verbatim>\<open>sort.Slice\<close>. Both are
  nondeterministic: the language leaves the iteration order of a map unspecified (the
  runtime randomises it), and \<^verbatim>\<open>sort.Slice\<close> is documented as not stable. So the
  function is a relation between the map and the slices it may return:
  \<open>range_map m kvs\<close> says that \<open>kvs\<close> lists every entry of \<open>m\<close> once, in some order;
  \<open>sort_Slice lt xs ys\<close> says that \<open>ys\<close> is a rearrangement of \<open>xs\<close> in which no
  element is less (by \<open>lt\<close>) than one before it.
\<close>

definition range_map :: "('k \<rightharpoonup> 'v) \<Rightarrow> ('k \<times> 'v) list \<Rightarrow> bool" where
  "range_map m kvs \<longleftrightarrow> distinct (map fst kvs) \<and> map_of kvs = m"

definition sort_Slice :: "('a \<Rightarrow> 'a \<Rightarrow> bool) \<Rightarrow> 'a list \<Rightarrow> 'a list \<Rightarrow> bool" where
  "sort_Slice lt xs ys \<longleftrightarrow> mset ys = mset xs \<and> sorted_wrt (\<lambda>a b. \<not> lt b a) ys"

inductive sortByFrequency :: "(string \<rightharpoonup> nat) \<Rightarrow> string list \<Rightarrow> bool" where
  sortByFrequencyI:
    "range_map counts items \<Longrightarrow>
     sort_Slice (\<lambda>i j. snd i > snd j) items sortedItems \<Longrightarrow>
     sortByFrequency counts (map fst sortedItems)"

text \<open>The ranker of the specification: count, then sort.\<close>

definition rank :: "(rune \<Rightarrow> rune) \<Rightarrow> string list \<Rightarrow> string list \<Rightarrow> bool" where
  "rank tab content sortedItems \<longleftrightarrow> sortByFrequency (countFrequencies tab content) sortedItems"

text \<open>The number of items of \<open>content\<close> whose capitalisation is \<open>k\<close>.\<close>

definition occurrences :: "(rune \<Rightarrow> rune) \<Rightarrow> string list \<Rightarrow> string \<Rightarrow> nat" where
  "occurrences tab content k = length (filter (\<lambda>item. capitalizePhrase tab item = k) content)"

section \<open>Tokens and phrase chunking\<close>

text \<open>A \<^verbatim>\<open>prose.Token\<close>: the tag, the text and the label, all strings.\<close>

record token =
  Tag :: string
  Text :: string
  Label :: string

text \<open>\<^verbatim>\<open>strings.Join\<close>.\<close>

fun join :: "string list \<Rightarrow> string \<Rightarrow> string" where
  "join [] sep = []"
| "join [x] sep = x"
| "join (x # y # zs) sep = x @ sep @ join (y # zs) sep"

text \<open>
  The case labels of the two chunkers: determiners, nouns and adjectives for noun
  phrases; verbs, adverbs and modals for verb phrases.
\<close>

definition nounGroup :: "string \<Rightarrow> bool" where
  "nounGroup tag \<longleftrightarrow> tag = ''DT'' \<or> tag = ''NN'' \<or> tag = ''JJ''"

definition verbGroup :: "string \<Rightarrow> bool" where
  "verbGroup tag \<longleftrightarrow> tag = ''VB'' \<or> tag = ''RB'' \<or> tag = ''MD''"

text \<open>
  The loop shared by \<^verbatim>\<open>extractNounPhrases\<close> and \<^verbatim>\<open>extractVerbPhrases\<close>, which
  differ in their case labels only. The state is the slice of phrases and the current
  phrase. A token that fails \<^verbatim>\<open>isChineseText\<close> leaves both as they are.
\<close>

fun chunkLoop :: "(string \<Rightarrow> bool) \<Rightarrow> token list \<Rightarrow> string list \<Rightarrow> string list
    \<Rightarrow> string list \<times> string list" where
  "chunkLoop grp [] phrases currentPhrase = (phrases, currentPhrase)"
| "chunkLoop grp (tok # tokens) phrases currentPhrase =
     (if isChineseText (Text tok) then
        (if grp (Tag tok) then chunkLoop grp tokens phrases (currentPhrase @ [Text tok])
         else if 0 < length currentPhrase then
           chunkLoop grp tokens (phrases @ [join currentPhrase '' '']) []
         else chunkLoop grp tokens phrases currentPhrase)
      else chunkLoop grp tokens phrases currentPhrase)"

definition chunkPhrases :: "(string \<Rightarrow> bool) \<Rightarrow> token list \<Rightarrow> string list" where
  "chunkPhrases grp tokens =
     (case chunkLoop grp tokens [] [] of
        (phrases, currentPhrase) \<Rightarrow>
          if 0 < length currentPhrase then phrases @ [join currentPhrase '' ''] else phrases)"

definition extractNounPhrases :: "token list \<Rightarrow> string list" where
  "extractNounPhrases tokens = chunkPhrases nounGroup tokens"

definition extractVerbPhrases :: "token list \<Rightarrow> string list" where
  "extractVerbPhrases tokens = chunkPhrases verbGroup tokens"

section \<open>Classification\<close>

text \<open>
  \<^verbatim>\<open>matchesPhraseList\<close>. \<^verbatim>\<open>strings.EqualFold\<close> is the parameter \<open>equalFold\<close>: the
  claims about it hold for whatever relation the library computes.
\<close>

fun matchesPhraseList :: "(string \<Rightarrow> string \<Rightarrow> bool) \<Rightarrow> string \<Rightarrow> string list \<Rightarrow> bool" where
  "matchesPhraseList equalFold phrase [] = False"
| "matchesPhraseList equalFold phrase (item # list) =
     (if equalFold item phrase then True else matchesPhraseList equalFold phrase list)"

text \<open>
  An instance of \<^verbatim>\<open>strings.EqualFold\<close> for evaluating examples: equality up to the
  case of ASCII letters, which is what the library computes on strings whose other
  characters have no case (such as Han characters).
\<close>

definition asciiLower :: "char \<Rightarrow> char" where
  "asciiLower c =
     (if (0x41::nat) \<le> of_char c \<and> (of_char c :: nat) \<le> 0x5A then char_of (of_char c + 0x20 :: nat)
      else c)"

definition asciiFold :: "string \<Rightarrow> string \<Rightarrow> bool" where
  "asciiFold s t \<longleftrightarrow> map asciiLower s = map asciiLower t"

text \<open>
  The idiom and slang lists of \<^verbatim>\<open>categorizeChineseText\<close>, as the UTF-8 bytes of the
  source file. Idioms: U+4E95 U+5E95 U+4E4B U+86D9, U+5B88 U+682A U+5F85 U+5154,
  U+753B U+86C7 U+6DFB U+8DB3, U+7EB8 U+4E0A U+8C08 U+5175. Slang: U+5403 U+571F,
  U+5B66 U+9738, U+5B85 U+7537, U+9AD8 U+5BCC U+5E05.
\<close>

definition idioms :: "string list" where
  "idioms =
     [[CHR 0xE4, CHR 0xBA, CHR 0x95, CHR 0xE5, CHR 0xBA, CHR 0x95,
       CHR 0xE4, CHR 0xB9, CHR 0x8B, CHR 0xE8, CHR 0x9B, CHR 0x99],
      [CHR 0xE5, CHR 0xAE, CHR 0x88, CHR 0xE6, CHR 0xA0, CHR 0xAA,
       CHR 0xE5, CHR 0xBE, CHR 0x85, CHR 0xE5, CHR 0x85, CHR 0x94],
      [CHR 0xE7, CHR 0x94, CHR 0xBB, CHR 0xE8, CHR 0x9B, CHR 0x87,
       CHR 0xE6, CHR 0xB7, CHR 0xBB, CHR 0xE8, CHR 0xB6, CHR 0xB3],
      [CHR 0xE7, CHR 0xBA, CHR 0xB8, CHR 0xE4, CHR 0xB8, CHR 0x8A,
       CHR 0xE8, CHR 0xB0, CHR 0x88, CHR 0xE5, CHR 0x85, CHR 0xB5]]"

definition slang :: "string list" where
  "slang =
     [[CHR 0xE5, CHR 0x90, CHR 0x83, CHR 0xE5, CHR 0x9C, CHR 0x9F],
      [CHR 0xE5, CHR 0xAD, CHR 0xA6, CHR 0xE9, CHR 0x9C, CHR 0xB8],
      [CHR 0xE5, CHR 0xAE, CHR 0x85, CHR 0xE7, CHR 0x94, CHR 0xB7],
      [CHR 0xE9, CHR 0xAB, CHR 0x98, CHR 0xE5, CHR 0xAF, CHR 0x8C, CHR 0xE5, CHR 0xB8, CHR 0x85]]"

text \<open>
  \<^verbatim>\<open>results\<close>, a map from category name to a slice of strings. Reading a missing key
  gives the nil slice; \<^verbatim>\<open>results[k] = append(results[k], xs...)\<close> is \<open>appendTo\<close>.
\<close>

type_synonym results = "string \<rightharpoonup> string list"

definition slice_at :: "results \<Rightarrow> string \<Rightarrow> string list" where
  "slice_at results k = (case results k of None \<Rightarrow> [] | Some xs \<Rightarrow> xs)"

definition appendTo :: "results \<Rightarrow> string \<Rightarrow> string list \<Rightarrow> results" where
  "appendTo results k xs = results(k \<mapsto> slice_at results k @ xs)"

text \<open>The body of the token loop of \<^verbatim>\<open>categorizeChineseText\<close>.\<close>

definition classifyToken :: "(string \<Rightarrow> string \<Rightarrow> bool) \<Rightarrow> results \<Rightarrow> token \<Rightarrow> results" where
  "classifyToken equalFold results tok =
     (let text = Text tok in
      if isChineseText text then
        (let r1 = appendTo results ''ChineseCharacters'' (extractChineseCharacters text);
             r2 = (if Tag tok = ''NN'' then appendTo r1 ''ChineseNouns'' [text]
                   else if Tag tok = ''VB'' then appendTo r1 ''ChineseVerbs'' [text]
                   else if Tag tok = ''JJ'' then appendTo r1 ''ChineseAdjectives'' [text]
                   else if Tag tok = ''RB'' then appendTo r1 ''ChineseAdverbs'' [text]
                   else appendTo r1 ''ChineseOtherExpressions'' [text]);
             r3 = (if matchesPhraseList equalFold text idioms
                   then appendTo r2 ''ChineseIdioms'' [text] else r2);
             r4 = (if matchesPhraseList equalFold text slang
                   then appendTo r3 ''ChineseSlang'' [text] else r3)
         in r4)
      else results)"

fun classifyLoop :: "(string \<Rightarrow> string \<Rightarrow> bool) \<Rightarrow> token list \<Rightarrow> results \<Rightarrow> results" where
  "classifyLoop equalFold [] results = results"
| "classifyLoop equalFold (tok # tokens) results =
     classifyLoop equalFold tokens (classifyToken equalFold results tok)"

text \<open>
  The categorisation of a token stream: the token loop from the empty map, then the two
  phrase extractions. (Reading the file and tagging it come before, writing the files
  after; the tagger's tokens are the input here.)
\<close>

definition categorizeChineseText :: "(string \<Rightarrow> string \<Rightarrow> bool) \<Rightarrow> token list \<Rightarrow> results" where
  "categorizeChineseText equalFold tokens =
     (let r1 = classifyLoop equalFold tokens Map.empty;
          r2 = r1(''ChineseNounPhrases'' \<mapsto> extractNounPhrases tokens);
          r3 = r2(''ChineseVerbPhrases'' \<mapsto> extractVerbPhrases tokens)
      in r3)"

text \<open>
  The output loop writes, for each category, the items of
  \<^verbatim>\<open>sortByFrequency(countFrequencies(results[category]))\<close>, one per line. \<open>outputLines\<close>
  relates a token stream and a category to the lines a run may write to its file.
\<close>

definition outputLines ::
  "(rune \<Rightarrow> rune) \<Rightarrow> (string \<Rightarrow> string \<Rightarrow> bool) \<Rightarrow> token list \<Rightarrow> string \<Rightarrow> string list \<Rightarrow> bool" where
  "outputLines tab equalFold tokens category sortedContent \<longleftrightarrow>
     rank tab (slice_at (categorizeChineseText equalFold tokens) category) sortedContent"


section \<open>Strings used in examples\<close>

text \<open>
  The UTF-8 bytes of U+5B66 U+9738, U+5B85 U+7537 and U+5403 U+571F (three entries of
  the slang list), of U+7EA2 and of U+82B1.
\<close>

definition xueba :: string where
  "xueba = [CHR 0xE5, CHR 0xAD, CHR 0xA6, CHR 0xE9, CHR 0x9C, CHR 0xB8]"

definition zhainan :: string where
  "zhainan = [CHR 0xE5, CHR 0xAE, CHR 0x85, CHR 0xE7, CHR 0x94, CHR 0xB7]"

definition chitu :: string where
  "chitu = [CHR 0xE5, CHR 0x90, CHR 0x83, CHR 0xE5, CHR 0x9C, CHR 0x9F]"

definition hong :: string where
  "hong = [CHR 0xE7, CHR 0xBA, CHR 0xA2]"

definition hua :: string where
  "hua = [CHR 0xE8, CHR 0x8A, CHR 0xB1]"


section \<open>Maximal runs\<close>

text \<open>
  A notion for statements about the chunker: the maximal runs of consecutive elements
  of a list that satisfy \<open>P\<close>, in order. An element that fails \<open>P\<close> ends a run and
  belongs to none.
\<close>

function runs :: "('a \<Rightarrow> bool) \<Rightarrow> 'a list \<Rightarrow> 'a list list" where
  "runs P [] = []"
| "runs P (x # xs) =
     (if P x then (x # takeWhile P xs) # runs P (dropWhile P xs) else runs P xs)"
  by pat_completeness auto
termination
proof (relation "measure (\<lambda>(P, xs). length xs)", goal_cases)
  case 1
  show ?case by simp
next
  case (2 P x xs)
  show ?case using length_dropWhile_le [of P xs] by simp
next
  case (3 P x xs)
  show ?case by simp
qed

lemma of_char_char_of_small: "n < 256 \<Longrightarrow> (of_char (char_of n) :: nat) = n"
  by simp

lemma decode_encode1:
  assumes "r \<le> 0x7F"
  shows "decoderune (encoderune r @ rest) = (r, 1)"
  using assms by (simp add: encoderune_def decoderune_def)


lemma mod_add_mult: "b < m \<Longrightarrow> (a * m + b) mod m = (b::nat)"
  by simp

lemma div_add_mult: "b < m \<Longrightarrow> (a * m + b) div m = (a::nat)"
  by simp


lemma mod_in_block: "k * m \<le> x \<Longrightarrow> x < k * m + m \<Longrightarrow> x mod m = x - k * (m::nat)"
  using mod_add_mult [of "x - k * m" m k] by simp

lemma decode_encode2:
  assumes "0x7F < r" "r \<le> 0x7FF"
  shows "decoderune (encoderune r @ rest) = (r, 2)"
proof -
  define q where "q = r div 64"
  define m where "m = r mod 64"
  have r: "q * 64 + m = r" by (simp add: q_def m_def)
  have m: "m < 64" by (simp add: m_def)
  have q: "2 \<le> q" "q < 32" using assms by (simp_all add: q_def less_Suc_eq_le div_le_mono le_div_geq)
  have enc: "encoderune r = [char_of (0xC0 + q), char_of (0x80 + m)]"
    using assms by (simp add: encoderune_def q_def m_def)
  have b0: "(of_char (char_of (0xC0 + q)) :: nat) = 0xC0 + q"
    using q by (intro of_char_char_of_small) simp
  have b1: "(of_char (char_of (0x80 + m)) :: nat) = 0x80 + m"
    using m by (intro of_char_char_of_small) simp
  have m0: "(0xC0 + q) mod 32 = q" using mod_add_mult [of q 32 6] q by simp
  have m1: "(0x80 + m) mod 64 = m" using mod_add_mult [of m 64 2] m by simp
  show ?thesis
    unfolding enc using assms q m
    by (simp add: decoderune_def cont_def payload_def b0 b1 m0 m1 r Let_def del: of_char_of)
qed

lemma decode_encode3:
  assumes "0x7FF < r" "r \<le> 0xFFFF" "\<not> (0xD800 \<le> r \<and> r \<le> 0xDFFF)"
  shows "decoderune (encoderune r @ rest) = (r, 3)"
proof -
  define a where "a = r div 4096"
  define b where "b = r div 64 mod 64"
  define c where "c = r mod 64"
  have "r div 64 = r div 64 div 64 * 64 + b" by (simp add: b_def)
  also have "r div 64 div 64 = a" by (simp add: a_def div_mult2_eq)
  finally have r64: "r div 64 = a * 64 + b" .
  have "r = r div 64 * 64 + c" by (simp add: c_def)
  then have r: "a * 4096 + b * 64 + c = r" unfolding r64 by simp
  have c: "c < 64" by (simp add: c_def)
  have b: "b < 64" by (simp add: b_def)
  have a: "a < 16" using assms by (simp add: a_def less_Suc_eq_le div_le_mono)
  have enc: "encoderune r = [char_of (0xE0 + a), char_of (0x80 + b), char_of (0x80 + c)]"
    using assms by (auto simp add: encoderune_def a_def b_def c_def)
  have b0: "(of_char (char_of (0xE0 + a)) :: nat) = 0xE0 + a"
    using a by (intro of_char_char_of_small) simp
  have b1: "(of_char (char_of (0x80 + b)) :: nat) = 0x80 + b"
    using b by (intro of_char_char_of_small) simp
  have b2: "(of_char (char_of (0x80 + c)) :: nat) = 0x80 + c"
    using c by (intro of_char_char_of_small) simp
  have m0: "(0xE0 + a) mod 16 = a" using mod_add_mult [of a 16 14] a by simp
  have m1: "(0x80 + b) mod 64 = b" using mod_add_mult [of b 64 2] b by simp
  have m2: "(0x80 + c) mod 64 = c" using mod_add_mult [of c 64 2] c by simp
  show ?thesis
    unfolding enc using assms a b c
    by (simp add: decoderune_def cont_def payload_def b0 b1 b2 m0 m1 m2 r Let_def del: of_char_of)
qed

lemma decode_encode4:
  assumes "0xFFFF < r" "r \<le> 0x10FFFF"
  shows "decoderune (encoderune r @ rest) = (r, 4)"
proof -
  define a where "a = r div 262144"
  define b where "b = r div 4096 mod 64"
  define c where "c = r div 64 mod 64"
  define d where "d = r mod 64"
  have "r div 4096 = r div 4096 div 64 * 64 + b" by (simp add: b_def)
  also have "r div 4096 div 64 = a" by (simp add: a_def div_mult2_eq)
  finally have r4096: "r div 4096 = a * 64 + b" .
  have "r div 64 = r div 64 div 64 * 64 + c" by (simp add: c_def)
  also have "r div 64 div 64 = r div 4096" by (simp add: div_mult2_eq)
  finally have r64: "r div 64 = a * 4096 + b * 64 + c" unfolding r4096 by simp
  have "r = r div 64 * 64 + d" by (simp add: d_def)
  then have r: "a * 262144 + b * 4096 + c * 64 + d = r" unfolding r64 by simp
  have d: "d < 64" by (simp add: d_def)
  have c: "c < 64" by (simp add: c_def)
  have b: "b < 64" by (simp add: b_def)
  have a: "a < 8" using assms by (simp add: a_def less_Suc_eq_le div_le_mono)
  have enc: "encoderune r =
      [char_of (0xF0 + a), char_of (0x80 + b), char_of (0x80 + c), char_of (0x80 + d)]"
    using assms by (simp add: encoderune_def a_def b_def c_def d_def)
  have b0: "(of_char (char_of (0xF0 + a)) :: nat) = 0xF0 + a"
    using a by (intro of_char_char_of_small) simp
  have b1: "(of_char (char_of (0x80 + b)) :: nat) = 0x80 + b"
    using b by (intro of_char_char_of_small) simp
  have b2: "(of_char (char_of (0x80 + c)) :: nat) = 0x80 + c"
    using c by (intro of_char_char_of_small) simp
  have b3: "(of_char (char_of (0x80 + d)) :: nat) = 0x80 + d"
    using d by (intro of_char_char_of_small) simp
  have m0: "(0xF0 + a) mod 8 = a" using mod_add_mult [of a 8 30] a by simp
  have m1: "(0x80 + b) mod 64 = b" using mod_add_mult [of b 64 2] b by simp
  have m2: "(0x80 + c) mod 64 = c" using mod_add_mult [of c 64 2] c by simp
  have m3: "(0x80 + d) mod 64 = d" using mod_add_mult [of d 64 2] d by simp
  show ?thesis
    unfolding enc using assms a b c d
    by (simp add: decoderune_def cont_def payload_def b0 b1 b2 b3 m0 m1 m2 m3 r Let_def
        del: of_char_of)
qed

lemma decoderune_encoderune:
  assumes "scalar r"
  shows "decoderune (encoderune r @ rest) = (r, length (encoderune r))"
proof -
  consider "r \<le> 0x7F" | "0x7F < r" "r \<le> 0x7FF" | "0x7FF < r" "r \<le> 0xFFFF" | "0xFFFF < r"
    by linarith
  then show ?thesis
  proof cases
    case 1
    then show ?thesis by (simp add: decode_encode1) (simp add: encoderune_def)
  next
    case 2
    then show ?thesis by (simp add: decode_encode2) (simp add: encoderune_def)
  next
    case 3
    with assms have "\<not> (0xD800 \<le> r \<and> r \<le> 0xDFFF)" by (simp add: scalar_def)
    with 3 show ?thesis by (simp add: decode_encode3) (simp add: encoderune_def)
  next
    case 4
    with assms have "r \<le> 0x10FFFF" by (simp add: scalar_def)
    with 4 show ?thesis by (simp add: decode_encode4) (simp add: encoderune_def)
  qed
qed


lemma encode_bytes2:
  assumes "0xC0 \<le> b0" "b0 < 0xE0" "0x80 \<le> b1" "b1 \<le> 0xBF"
    and "0x7F < b0 mod 32 * 64 + b1 mod 64"
  shows "encoderune (b0 mod 32 * 64 + b1 mod 64) = [char_of b0, char_of b1]"
proof -
  define q where "q = b0 mod 32"
  define m where "m = b1 mod 64"
  define r where "r = q * 64 + m"
  have q: "q < 32" and m: "m < 64" by (simp_all add: q_def m_def)
  have b0: "0xC0 + q = b0" using mod_in_block [of 6 32 b0] assms by (simp add: q_def)
  have b1: "0x80 + m = b1" using mod_in_block [of 2 64 b1] assms by (simp add: m_def)
  have d: "r div 64 = q" unfolding r_def by (rule div_add_mult [OF m])
  have e: "r mod 64 = m" unfolding r_def by (rule mod_add_mult [OF m])
  have "r \<le> 0x7FF" using q m by (simp add: r_def)
  moreover have "0x7F < r" using assms(5) by (simp add: r_def q_def m_def)
  ultimately have "encoderune r = [char_of (0xC0 + r div 64), char_of (0x80 + r mod 64)]"
    by (simp add: encoderune_def)
  then show ?thesis
    unfolding d e b0 b1 unfolding r_def q_def m_def .
qed

lemma encode_bytes3:
  assumes "0xE0 \<le> b0" "b0 < 0xF0" "0x80 \<le> b1" "b1 \<le> 0xBF" "0x80 \<le> b2" "b2 \<le> 0xBF"
    and "0x7FF < b0 mod 16 * 4096 + b1 mod 64 * 64 + b2 mod 64"
    and "\<not> (0xD800 \<le> b0 mod 16 * 4096 + b1 mod 64 * 64 + b2 mod 64
           \<and> b0 mod 16 * 4096 + b1 mod 64 * 64 + b2 mod 64 \<le> 0xDFFF)"
  shows "encoderune (b0 mod 16 * 4096 + b1 mod 64 * 64 + b2 mod 64)
         = [char_of b0, char_of b1, char_of b2]"
proof -
  define x where "x = b0 mod 16"
  define y where "y = b1 mod 64"
  define z where "z = b2 mod 64"
  define r where "r = (x * 64 + y) * 64 + z"
  have orig: "b0 mod 16 * 4096 + b1 mod 64 * 64 + b2 mod 64 = r"
    by (simp add: r_def x_def y_def z_def)
  have x: "x < 16" and y: "y < 64" and z: "z < 64" by (simp_all add: x_def y_def z_def)
  have b0: "0xE0 + x = b0" using mod_in_block [of 14 16 b0] assms by (simp add: x_def)
  have b1: "0x80 + y = b1" using mod_in_block [of 2 64 b1] assms by (simp add: y_def)
  have b2: "0x80 + z = b2" using mod_in_block [of 2 64 b2] assms by (simp add: z_def)
  have d1: "r div 64 = x * 64 + y" unfolding r_def by (rule div_add_mult [OF z])
  have d2: "r div 4096 = x"
  proof -
    have "r div 4096 = r div 64 div 64" by (simp add: div_mult2_eq)
    also have "\<dots> = x" unfolding d1 by (rule div_add_mult [OF y])
    finally show ?thesis .
  qed
  have e1: "r div 64 mod 64 = y" unfolding d1 by (rule mod_add_mult [OF y])
  have e2: "r mod 64 = z" unfolding r_def by (rule mod_add_mult [OF z])
  have "r \<le> 0xFFFF" using x y z by (simp add: r_def)
  moreover have "0x7FF < r" "\<not> (0xD800 \<le> r \<and> r \<le> 0xDFFF)"
    using assms(7,8) unfolding orig by simp_all
  ultimately have "encoderune r =
      [char_of (0xE0 + r div 4096), char_of (0x80 + r div 64 mod 64), char_of (0x80 + r mod 64)]"
    by (auto simp add: encoderune_def)
  then show ?thesis
    unfolding d2 e1 e2 b0 b1 b2 unfolding orig .
qed

lemma encode_bytes4:
  assumes "0xF0 \<le> b0" "b0 < 0xF8" "0x80 \<le> b1" "b1 \<le> 0xBF" "0x80 \<le> b2" "b2 \<le> 0xBF"
    and "0x80 \<le> b3" "b3 \<le> 0xBF"
    and "0xFFFF < b0 mod 8 * 262144 + b1 mod 64 * 4096 + b2 mod 64 * 64 + b3 mod 64"
    and "b0 mod 8 * 262144 + b1 mod 64 * 4096 + b2 mod 64 * 64 + b3 mod 64 \<le> 0x10FFFF"
  shows "encoderune (b0 mod 8 * 262144 + b1 mod 64 * 4096 + b2 mod 64 * 64 + b3 mod 64)
         = [char_of b0, char_of b1, char_of b2, char_of b3]"
proof -
  define w where "w = b0 mod 8"
  define x where "x = b1 mod 64"
  define y where "y = b2 mod 64"
  define z where "z = b3 mod 64"
  define r where "r = ((w * 64 + x) * 64 + y) * 64 + z"
  have orig: "b0 mod 8 * 262144 + b1 mod 64 * 4096 + b2 mod 64 * 64 + b3 mod 64 = r"
    by (simp add: r_def w_def x_def y_def z_def)
  have w: "w < 8" and x: "x < 64" and y: "y < 64" and z: "z < 64"
    by (simp_all add: w_def x_def y_def z_def)
  have b0: "0xF0 + w = b0" using mod_in_block [of 30 8 b0] assms by (simp add: w_def)
  have b1: "0x80 + x = b1" using mod_in_block [of 2 64 b1] assms by (simp add: x_def)
  have b2: "0x80 + y = b2" using mod_in_block [of 2 64 b2] assms by (simp add: y_def)
  have b3: "0x80 + z = b3" using mod_in_block [of 2 64 b3] assms by (simp add: z_def)
  have d1: "r div 64 = (w * 64 + x) * 64 + y" unfolding r_def by (rule div_add_mult [OF z])
  have d2: "r div 4096 = w * 64 + x"
  proof -
    have "r div 4096 = r div 64 div 64" by (simp add: div_mult2_eq)
    also have "\<dots> = w * 64 + x" unfolding d1 by (rule div_add_mult [OF y])
    finally show ?thesis .
  qed
  have d3: "r div 262144 = w"
  proof -
    have "r div 262144 = r div 4096 div 64" by (simp add: div_mult2_eq)
    also have "\<dots> = w" unfolding d2 by (rule div_add_mult [OF x])
    finally show ?thesis .
  qed
  have e1: "r div 4096 mod 64 = x" unfolding d2 by (rule mod_add_mult [OF x])
  have e2: "r div 64 mod 64 = y" unfolding d1 by (rule mod_add_mult [OF y])
  have e3: "r mod 64 = z" unfolding r_def by (rule mod_add_mult [OF z])
  have "0xFFFF < r" "r \<le> 0x10FFFF"
    using assms(9,10) unfolding orig by simp_all
  then have "encoderune r =
      [char_of (0xF0 + r div 262144), char_of (0x80 + r div 4096 mod 64),
       char_of (0x80 + r div 64 mod 64), char_of (0x80 + r mod 64)]"
    by (simp add: encoderune_def)
  then show ?thesis
    unfolding d3 e1 e2 e3 b0 b1 b2 b3 unfolding orig .
qed

lemma take2: "1 < length s \<Longrightarrow> take 2 s = [s ! 0, s ! 1]"
  by (cases s; cases "tl s") (auto simp: numeral_2_eq_2)

lemma take3: "2 < length s \<Longrightarrow> take 3 s = [s ! 0, s ! 1, s ! 2]"
  by (cases s; cases "tl s"; cases "tl (tl s)") (auto simp: numeral_3_eq_3)

lemma take4: "3 < length s \<Longrightarrow> take 4 s = [s ! 0, s ! 1, s ! 2, s ! 3]"
proof -
  assume a: "3 < length s"
  then have "take 4 s = take 3 s @ [s ! 3]"
    using take_Suc_conv_app_nth [of 3 s] by simp
  with a show ?thesis by (simp add: take3)
qed

lemma take1: "s \<noteq> [] \<Longrightarrow> take (Suc 0) s = [s ! 0]"
  by (cases s) auto

lemma encoderune_decoderune:
  assumes "s \<noteq> []" and "decoderune s = (r, n)" and "(r, n) \<noteq> (runeError, 1)"
  shows "encoderune r = take n s"
proof -
  define b0 :: nat where "b0 = of_char (s ! 0)"
  define b1 :: nat where "b1 = of_char (s ! 1)"
  define b2 :: nat where "b2 = of_char (s ! 2)"
  define b3 :: nat where "b3 = of_char (s ! 3)"
  have c: "char_of b0 = s ! 0" "char_of b1 = s ! 1" "char_of b2 = s ! 2" "char_of b3 = s ! 3"
    by (simp_all add: b0_def b1_def b2_def b3_def)
  consider "b0 < 0x80" | "0x80 \<le> b0" "b0 < 0xC0" | "0xC0 \<le> b0" "b0 < 0xE0"
    | "0xE0 \<le> b0" "b0 < 0xF0" | "0xF0 \<le> b0" "b0 < 0xF8" | "0xF8 \<le> b0"
    by linarith
  then show ?thesis
  proof cases
    case 1
    with assms have "r = b0" "n = 1" by (simp_all add: decoderune_def b0_def [symmetric])
    with 1 assms(1) show ?thesis by (simp add: encoderune_def c take1)
  next
    case 2
    with assms show ?thesis by (simp add: decoderune_def b0_def [symmetric])
  next
    case 3
    with assms have h: "1 < length s" "0x80 \<le> b1" "b1 \<le> 0xBF"
      "0x7F < b0 mod 32 * 64 + b1 mod 64" "r = b0 mod 32 * 64 + b1 mod 64" "n = 2"
      by (auto simp add: decoderune_def b0_def [symmetric] b1_def [symmetric] cont_def
          payload_def Let_def simp del: One_nat_def split: if_splits)
    show ?thesis
      using encode_bytes2 [OF 3 h(2,3,4)] h(1) by (simp add: h(5,6) take2 c)
  next
    case 4
    with assms have h: "2 < length s" "0x80 \<le> b1" "b1 \<le> 0xBF" "0x80 \<le> b2" "b2 \<le> 0xBF"
      "0x7FF < b0 mod 16 * 4096 + b1 mod 64 * 64 + b2 mod 64"
      "\<not> (0xD800 \<le> b0 mod 16 * 4096 + b1 mod 64 * 64 + b2 mod 64
           \<and> b0 mod 16 * 4096 + b1 mod 64 * 64 + b2 mod 64 \<le> 0xDFFF)"
      "r = b0 mod 16 * 4096 + b1 mod 64 * 64 + b2 mod 64" "n = 3"
      by (auto simp add: decoderune_def b0_def [symmetric] b1_def [symmetric]
          b2_def [symmetric] cont_def payload_def Let_def simp del: One_nat_def split: if_splits)
    show ?thesis
      using encode_bytes3 [OF 4 h(2,3,4,5,6,7)] h(1) by (simp add: h(8,9) take3 c)
  next
    case 5
    with assms have h: "3 < length s" "0x80 \<le> b1" "b1 \<le> 0xBF" "0x80 \<le> b2" "b2 \<le> 0xBF"
      "0x80 \<le> b3" "b3 \<le> 0xBF"
      "0xFFFF < b0 mod 8 * 262144 + b1 mod 64 * 4096 + b2 mod 64 * 64 + b3 mod 64"
      "b0 mod 8 * 262144 + b1 mod 64 * 4096 + b2 mod 64 * 64 + b3 mod 64 \<le> 0x10FFFF"
      "r = b0 mod 8 * 262144 + b1 mod 64 * 4096 + b2 mod 64 * 64 + b3 mod 64" "n = 4"
      by (auto simp add: decoderune_def b0_def [symmetric] b1_def [symmetric]
          b2_def [symmetric] b3_def [symmetric] cont_def payload_def Let_def simp del: One_nat_def split: if_splits)
    show ?thesis
      using encode_bytes4 [OF 5 h(2,3,4,5,6,7,8,9)] h(1) by (simp add: h(10,11) take4 c)
  next
    case 6
    with assms show ?thesis by (simp add: decoderune_def b0_def [symmetric])
  qed
qed


section \<open>Decoding and encoding are inverse on well-formed input\<close>

declare range_string.simps [simp del]

lemma range_string_Nil [simp]: "range_string [] = []"
  by (simp add: range_string.simps)

lemma range_string_nonempty:
  "s \<noteq> [] \<Longrightarrow>
   range_string s = decoderune s # range_string (drop (snd (decoderune s)) s)"
  by (subst range_string.simps) (simp add: case_prod_beta)

lemma runes_Nil [simp]: "runes [] = []"
  by (simp add: runes_def)

lemma runes_nonempty:
  "s \<noteq> [] \<Longrightarrow> runes s = fst (decoderune s) # runes (drop (snd (decoderune s)) s)"
  by (simp add: runes_def range_string_nonempty)

lemma encoderune_nonempty: "encoderune r \<noteq> []"
  by (simp add: encoderune_def)

lemma runes_encoderune_append:
  assumes "scalar r"
  shows "runes (encoderune r @ rest) = r # runes rest"
proof -
  have "encoderune r @ rest \<noteq> []" by (simp add: encoderune_nonempty)
  then show ?thesis
    by (simp add: runes_nonempty decoderune_encoderune [OF assms])
qed






lemma string_of_runes_runes:
  "valid_utf8 s \<Longrightarrow> string_of_runes (runes s) = s"
proof (induction s rule: range_string.induct)
  case (1 s)
  show ?case
  proof (cases "s = []")
    case True
    then show ?thesis by (simp add: string_of_runes_def)
  next
    case False
    obtain r n where d: "decoderune s = (r, n)" by (cases "decoderune s")
    from 1(2) False d have ok: "(r, n) \<noteq> (runeError, 1)" and rest: "valid_utf8 (drop n s)"
      by (simp_all add: valid_utf8_def range_string_nonempty)
    have "string_of_runes (runes (drop n s)) = drop n s"
      using 1(1) [OF False d [symmetric] rest] .
    moreover have "encoderune r = take n s"
      by (rule encoderune_decoderune [OF False d ok])
    ultimately show ?thesis
      using False d by (simp add: runes_nonempty string_of_runes_def)
  qed
qed

section \<open>Facts about the Han table\<close>

lemma han_bounds:
  "han r \<Longrightarrow>
   0x2E80 \<le> r \<and> r \<le> 0x323AF \<and> (r \<le> 0x9FFF \<or> 0xF900 \<le> r) \<and> (r \<le> 0xFAD9 \<or> 0x16FE2 \<le> r)"
  unfolding han_def by (elim disjE) simp_all

lemma han_scalar: "han r \<Longrightarrow> scalar r"
  using han_bounds [of r] by (auto simp: scalar_def)

lemma han_not_ascii: "han r \<Longrightarrow> \<not> r \<le> 0x7F"
  using han_bounds [of r] by simp

lemma han_not_runeError: "\<not> han runeError"
  by (simp add: han_def runeError_def)

lemma toUpper_han: "han_caseless tab \<Longrightarrow> han r \<Longrightarrow> toUpper tab r = r"
  by (simp add: toUpper_def han_caseless_def han_not_ascii)

lemma toUpper_space_hyphen: "toUpper tab 0x20 = 0x20" "toUpper tab 0x2D = 0x2D"
  by (simp_all add: toUpper_def)


section \<open>The script filter\<close>

lemma isChineseLoop_iff:
  "isChineseLoop rs \<longleftrightarrow> (\<forall>r\<in>set rs. han r \<or> r = 0x20 \<or> r = 0x2D)"
  by (induction rs) auto

text \<open>
  Claim C7. For every string \<open>s\<close>, \<open>isChineseText s\<close> is true exactly when every
  character of \<open>s\<close> (every rune the range loop decodes from it) is a Han character, a
  space or a hyphen. In particular it is true on the empty string, and false as soon as
  one character lies outside that set.
\<close>

theorem isChineseText_iff:
  "(isChineseText s \<longleftrightarrow> (\<forall>r\<in>set (runes s). han r \<or> r = 0x20 \<or> r = 0x2D))
   \<and> isChineseText []
   \<and> ((\<exists>r\<in>set (runes s). \<not> han r \<and> r \<noteq> 0x20 \<and> r \<noteq> 0x2D) \<longrightarrow> \<not> isChineseText s)"
  by (auto simp: isChineseText_def isChineseLoop_iff)

text \<open>
  The theorem at U+5B66, a space and a hyphen (accepted), and at U+5B66 followed by the
  letter a (rejected).
\<close>

lemma runes_example_accept:
  "runes [CHR 0xE5, CHR 0xAD, CHR 0xA6, CHR 0x20, CHR 0x2D] = [0x5B66, 0x20, 0x2D]"
  by (simp add: runes_def range_string.simps decoderune_def cont_def payload_def)

lemma runes_example_reject:
  "runes [CHR 0xE5, CHR 0xAD, CHR 0xA6, CHR 0x61] = [0x5B66, 0x61]"
  by (simp add: runes_def range_string.simps decoderune_def cont_def payload_def)

theorem isChineseText_iff_witness:
  "isChineseText [CHR 0xE5, CHR 0xAD, CHR 0xA6, CHR 0x20, CHR 0x2D]
   \<and> \<not> isChineseText [CHR 0xE5, CHR 0xAD, CHR 0xA6, CHR 0x61]"
  using isChineseText_iff [of "[CHR 0xE5, CHR 0xAD, CHR 0xA6, CHR 0x20, CHR 0x2D]"]
    isChineseText_iff [of "[CHR 0xE5, CHR 0xAD, CHR 0xA6, CHR 0x61]"]
  by (simp add: runes_example_accept runes_example_reject han_def)

section \<open>The character extractor\<close>

lemma extractLoop_eq:
  "extractLoop rs characters = characters @ map encoderune (filter han rs)"
  by (induction rs arbitrary: characters) auto

lemma extractChineseCharacters_eq:
  "extractChineseCharacters s = map encoderune (filter han (runes s))"
  by (simp add: extractChineseCharacters_def extractLoop_eq)

lemma runes_encoderune: "scalar r \<Longrightarrow> runes (encoderune r) = [r]"
  using runes_encoderune_append [of r "[]"] by simp

text \<open>
  Claim C8. For every string \<open>s\<close>, \<open>extractChineseCharacters s\<close> holds one string per
  Han character of \<open>s\<close>, in the order of \<open>s\<close>: its length is the number of Han
  characters of \<open>s\<close>, its \<open>i\<close>-th element is the encoding of the \<open>i\<close>-th Han character
  and decodes to that single character, and no element is the empty string. So a
  character that is not Han (a space, a hyphen) appears nowhere in the result.
\<close>

theorem extractChineseCharacters_han:
  "length (extractChineseCharacters s) = length (filter han (runes s))
   \<and> extractChineseCharacters s = map encoderune (filter han (runes s))
   \<and> map runes (extractChineseCharacters s) = map (\<lambda>r. [r]) (filter han (runes s))
   \<and> [] \<notin> set (extractChineseCharacters s)"
proof -
  have "map runes (map encoderune (filter han (runes s))) = map (\<lambda>r. [r]) (filter han (runes s))"
    by (simp add: runes_encoderune han_scalar)
  moreover have "[] \<notin> set (map encoderune (filter han (runes s)))"
    using encoderune_nonempty by (auto dest: sym)
  ultimately show ?thesis
    by (simp add: extractChineseCharacters_eq)
qed

text \<open>
  The theorem at the string U+7EA2, space, U+82B1, hyphen: the two Han characters come
  out, each as a string of its own.
\<close>

theorem extractChineseCharacters_han_witness:
  "extractChineseCharacters
     [CHR 0xE7, CHR 0xBA, CHR 0xA2, CHR 0x20, CHR 0xE8, CHR 0x8A, CHR 0xB1, CHR 0x2D]
   = [[CHR 0xE7, CHR 0xBA, CHR 0xA2], [CHR 0xE8, CHR 0x8A, CHR 0xB1]]"
proof -
  have r: "runes [CHR 0xE7, CHR 0xBA, CHR 0xA2, CHR 0x20, CHR 0xE8, CHR 0x8A, CHR 0xB1, CHR 0x2D]
      = [0x7EA2, 0x20, 0x82B1, 0x2D]"
    by (simp add: runes_def range_string.simps decoderune_def cont_def payload_def)
  show ?thesis
    using extractChineseCharacters_han
      [of "[CHR 0xE7, CHR 0xBA, CHR 0xA2, CHR 0x20, CHR 0xE8, CHR 0x8A, CHR 0xB1, CHR 0x2D]"]
    by (simp add: r han_def encoderune_def char_of_eq_iff)
qed


section \<open>The frequency table\<close>

lemma finite_dom_increment: "finite (dom counts) \<Longrightarrow> finite (dom (increment counts k))"
  by (simp add: increment_def)

lemma dom_increment: "dom (increment counts k) = insert k (dom counts)"
  by (simp add: increment_def)

lemma freq_increment:
  "freq (increment counts k) x = (if x = k then freq counts k + 1 else freq counts x)"
  by (simp add: increment_def freq_def)

lemma sum_freq_increment:
  assumes "finite (dom counts)"
  shows "(\<Sum>x\<in>dom (increment counts k). freq (increment counts k) x)
         = (\<Sum>x\<in>dom counts. freq counts x) + 1"
proof -
  define D where "D = dom counts - {k}"
  have fin: "finite D" and notin: "k \<notin> D" using assms by (simp_all add: D_def)
  have ins: "sum f (insert k D) = f k + sum f D" for f :: "string \<Rightarrow> nat"
    using fin notin by (rule sum.insert)
  have others: "sum (freq (increment counts k)) D = sum (freq counts) D"
    by (rule sum.cong) (simp_all add: freq_increment D_def)
  have new_dom: "dom (increment counts k) = insert k D"
    by (auto simp: dom_increment D_def)
  have old_sum: "freq counts k + sum (freq counts) D = sum (freq counts) (dom counts)"
  proof (cases "k \<in> dom counts")
    case True
    then have "dom counts = insert k D" by (auto simp: D_def)
    then show ?thesis by (simp only: ins)
  next
    case False
    then have "counts k = None" by (simp add: domIff)
    then have "freq counts k = 0" by (simp add: freq_def)
    moreover have "D = dom counts" using False by (simp add: D_def)
    ultimately show ?thesis by simp
  qed
  have "sum (freq (increment counts k)) (dom (increment counts k))
      = freq (increment counts k) k + sum (freq (increment counts k)) D"
    by (simp only: new_dom ins)
  also have "\<dots> = freq counts k + 1 + sum (freq counts) D"
    by (simp only: others) (simp add: freq_increment)
  also have "\<dots> = sum (freq counts) (dom counts) + 1"
    using old_sum by simp
  finally show ?thesis .
qed

lemma countLoop_finite:
  "finite (dom counts) \<Longrightarrow> finite (dom (countLoop tab content counts))"
  by (induction content arbitrary: counts) (simp_all add: finite_dom_increment)

lemma countLoop_dom:
  "dom (countLoop tab content counts) = dom counts \<union> capitalizePhrase tab ` set content"
  by (induction content arbitrary: counts) (auto simp: dom_increment)

lemma countLoop_freq:
  "freq (countLoop tab content counts) k = freq counts k + occurrences tab content k"
  by (induction content arbitrary: counts) (auto simp: freq_increment occurrences_def)

lemma countLoop_sum:
  "finite (dom counts) \<Longrightarrow>
   (\<Sum>k\<in>dom (countLoop tab content counts). freq (countLoop tab content counts) k)
   = (\<Sum>k\<in>dom counts. freq counts k) + length content"
proof (induction content arbitrary: counts)
  case Nil
  show ?case by simp
next
  case (Cons item content)
  from Cons.prems have "finite (dom (increment counts (capitalizePhrase tab item)))"
    by (rule finite_dom_increment)
  from Cons.IH [OF this] show ?case
    by (simp add: sum_freq_increment [OF Cons.prems])
qed

lemma countFrequencies_finite: "finite (dom (countFrequencies tab content))"
  by (simp add: countFrequencies_def countLoop_finite)

lemma countFrequencies_dom:
  "dom (countFrequencies tab content) = capitalizePhrase tab ` set content"
  by (simp add: countFrequencies_def countLoop_dom)

lemma countFrequencies_freq:
  "freq (countFrequencies tab content) k = occurrences tab content k"
proof -
  have "freq Map.empty k = 0" by (simp add: freq_def)
  then show ?thesis by (simp add: countFrequencies_def countLoop_freq)
qed

lemma occurrences_pos:
  "k \<in> capitalizePhrase tab ` set content \<Longrightarrow> 0 < occurrences tab content k"
  by (auto simp: occurrences_def filter_empty_conv)

lemma countFrequencies_lookup:
  "countFrequencies tab content k =
     (if k \<in> capitalizePhrase tab ` set content then Some (occurrences tab content k) else None)"
proof (cases "k \<in> capitalizePhrase tab ` set content")
  case True
  then have "k \<in> dom (countFrequencies tab content)" by (simp add: countFrequencies_dom)
  then obtain c where c: "countFrequencies tab content k = Some c" by auto
  then have "freq (countFrequencies tab content) k = c" by (simp add: freq_def)
  with c True show ?thesis by (simp add: countFrequencies_freq)
next
  case False
  then have "k \<notin> dom (countFrequencies tab content)" by (simp add: countFrequencies_dom)
  with False show ?thesis by auto
qed

text \<open>
  Claim C10. For every list of strings, the counts of the table that
  \<open>countFrequencies\<close> builds add up to the length of the list: no occurrence is dropped
  and none is counted twice. The keys of the table are exactly the capitalisations of
  the items, so every key is the capitalisation of some item; the count of a key is the
  number of items with that capitalisation.
\<close>

theorem countFrequencies_total:
  "(\<Sum>k\<in>dom (countFrequencies tab content). freq (countFrequencies tab content) k)
     = length content
   \<and> finite (dom (countFrequencies tab content))
   \<and> dom (countFrequencies tab content) = capitalizePhrase tab ` set content
   \<and> freq (countFrequencies tab content) k = occurrences tab content k"
proof -
  have "(\<Sum>k\<in>dom (countFrequencies tab content). freq (countFrequencies tab content) k)
      = length content"
    using countLoop_sum [of Map.empty tab content] by (simp add: countFrequencies_def)
  then show ?thesis
    by (simp add: countFrequencies_finite countFrequencies_dom countFrequencies_freq)
qed


section \<open>Capitalisation\<close>

lemma runes_eq_Nil: "runes s = [] \<longleftrightarrow> s = []"
  by (cases "s = []") (simp_all add: runes_nonempty)

lemma capitalizePhrase_Nil [simp]: "capitalizePhrase tab [] = []"
  by (simp add: capitalizePhrase_def string_of_runes_def)

lemma capitalizePhrase_fixed:
  assumes "valid_utf8 s" and "s = [] \<or> toUpper tab (hd (runes s)) = hd (runes s)"
  shows "capitalizePhrase tab s = s"
proof (cases "runes s")
  case Nil
  then show ?thesis by (simp add: runes_eq_Nil)
next
  case (Cons r rs)
  then have "s \<noteq> []" by auto
  with assms(2) Cons have "toUpper tab r = r" by simp
  with Cons have "capitalizePhrase tab s = string_of_runes (runes s)"
    by (simp add: capitalizePhrase_def)
  with assms(1) show ?thesis by (simp add: string_of_runes_runes)
qed

lemma isChineseText_valid:
  assumes "isChineseText s"
  shows "valid_utf8 s"
proof -
  have "\<forall>r\<in>set (runes s). r \<noteq> runeError"
    using assms han_not_runeError
    by (auto simp: isChineseText_def isChineseLoop_iff runeError_def)
  then have "\<forall>p\<in>set (range_string s). p \<noteq> (runeError, 1)"
    by (auto simp: runes_def)
  then show ?thesis by (simp add: valid_utf8_def list_all_iff)
qed

lemma capitalizePhrase_chinese:
  assumes "han_caseless tab" and "isChineseText s"
  shows "capitalizePhrase tab s = s"
proof (cases "s = []")
  case True
  then show ?thesis by simp
next
  case False
  then have "runes s \<noteq> []" by (simp add: runes_eq_Nil)
  then have "hd (runes s) \<in> set (runes s)" by simp
  with assms(2) have "han (hd (runes s)) \<or> hd (runes s) = 0x20 \<or> hd (runes s) = 0x2D"
    by (simp add: isChineseText_def isChineseLoop_iff)
  then have "toUpper tab (hd (runes s)) = hd (runes s)"
    using toUpper_han [OF assms(1)] toUpper_space_hyphen [of tab] by auto
  then show ?thesis
    using isChineseText_valid [OF assms(2)] by (simp add: capitalizePhrase_fixed)
qed




lemma han_caseless_latin1_upper: "han_caseless latin1_upper"
  using han_bounds by (fastforce simp: han_caseless_def latin1_upper_def)


section \<open>The example strings pass the script filter\<close>

lemma runes_examples:
  "runes xueba = [0x5B66, 0x9738]" "runes zhainan = [0x5B85, 0x7537]"
  "runes chitu = [0x5403, 0x571F]" "runes hong = [0x7EA2]" "runes hua = [0x82B1]"
  by (simp_all add: xueba_def zhainan_def chitu_def hong_def hua_def runes_def
      range_string.simps decoderune_def cont_def payload_def)

lemma isChineseText_examples:
  "isChineseText xueba" "isChineseText zhainan" "isChineseText chitu"
  "isChineseText hong" "isChineseText hua"
  by (simp_all add: isChineseText_def runes_examples han_def)

lemma not_isChineseText_abc: "\<not> isChineseText ''abc''"
  by (simp add: isChineseText_def runes_def range_string.simps decoderune_def han_def)

lemma examples_distinct:
  "xueba \<noteq> zhainan" "xueba \<noteq> chitu" "zhainan \<noteq> chitu" "hong \<noteq> hua"
  by (simp_all add: xueba_def zhainan_def chitu_def hong_def hua_def)


section \<open>Sorting by frequency\<close>

lemma sortByFrequency_props:
  assumes "sortByFrequency counts out"
  shows "distinct out" and "set out = dom counts"
    and "sorted_wrt (\<lambda>a b. freq counts b \<le> freq counts a) out"
proof -
  from assms obtain items srt where r: "range_map counts items"
    and s: "sort_Slice (\<lambda>i j. snd i > snd j) items srt" and out: "out = map fst srt"
    by (auto elim: sortByFrequency.cases)
  from r have d: "distinct (map fst items)" and m: "map_of items = counts"
    by (simp_all add: range_map_def)
  from s have ms: "mset srt = mset items" and sd: "sorted_wrt (\<lambda>a b. \<not> snd b > snd a) srt"
    by (simp_all add: sort_Slice_def)
  from ms have "mset (map fst srt) = mset (map fst items)" by simp
  from mset_eq_imp_distinct_iff [OF this] d show "distinct out" unfolding out by simp
  from ms have st: "set srt = set items" by (rule mset_eq_setD)
  then have "set out = fst ` set items" by (simp add: out)
  also have "\<dots> = dom (map_of items)" by (simp add: dom_map_of_conv_image_fst)
  also have "\<dots> = dom counts" by (simp only: m)
  finally show "set out = dom counts" .
  have v: "snd p = freq counts (fst p)" if "p \<in> set srt" for p
  proof -
    from that st have "(fst p, snd p) \<in> set items" by simp
    with d have "map_of items (fst p) = Some (snd p)" by (rule map_of_is_SomeI)
    with m show ?thesis by (simp add: freq_def)
  qed
  have "sorted_wrt (\<lambda>a b. freq counts (fst b) \<le> freq counts (fst a)) srt"
    using sd by (rule sorted_wrt_mono_rel [rotated]) (simp add: v not_less)
  then show "sorted_wrt (\<lambda>a b. freq counts b \<le> freq counts a) out"
    by (simp add: out sorted_wrt_map)
qed




text \<open>Two results for the same map list the same keys, with the same counts in the same
  positions; they can differ only in the order of keys of equal count.\<close>

lemma descending_unique:
  fixes xs ys :: "nat list"
  assumes "mset xs = mset ys"
    and "sorted_wrt (\<lambda>a b. b \<le> a) xs" and "sorted_wrt (\<lambda>a b. b \<le> a) ys"
  shows "xs = ys"
proof -
  have sx: "sorted (rev xs)" and sy: "sorted (rev ys)"
    using assms(2,3) by (simp_all add: sorted_wrt_rev)
  have m: "mset (rev xs) = mset (rev ys)" using assms(1) by simp
  have "sort (rev ys) = rev xs" using m sx by (rule properties_for_sort)
  moreover have "sort (rev ys) = rev ys" using sy by (rule sorted_sort_id)
  ultimately have "rev xs = rev ys" by simp
  then show ?thesis by simp
qed

lemma sortByFrequency_agree:
  assumes "sortByFrequency counts out1" and "sortByFrequency counts out2"
  shows "mset out1 = mset out2"
    and "map (freq counts) out1 = map (freq counts) out2"
    and "inj_on (freq counts) (dom counts) \<Longrightarrow> out1 = out2"
proof -
  note p1 = sortByFrequency_props [OF assms(1)] and p2 = sortByFrequency_props [OF assms(2)]
  show m: "mset out1 = mset out2"
    using p1(1,2) p2(1,2) by (simp add: set_eq_iff_mset_eq_distinct [symmetric])
  then have "mset (map (freq counts) out1) = mset (map (freq counts) out2)" by simp
  moreover have "sorted_wrt (\<lambda>a b. b \<le> a) (map (freq counts) out1)"
    "sorted_wrt (\<lambda>a b. b \<le> a) (map (freq counts) out2)"
    using p1(3) p2(3) by (simp_all add: sorted_wrt_map)
  ultimately show e: "map (freq counts) out1 = map (freq counts) out2"
    by (rule descending_unique)
  assume "inj_on (freq counts) (dom counts)"
  then have "inj_on (freq counts) (set out1 \<union> set out2)" using p1(2) p2(2) by simp
  with e show "out1 = out2" by (simp add: inj_on_map_eq_map)
qed


section \<open>Classification into buckets\<close>

lemma slice_at_appendTo:
  "slice_at (appendTo results k xs) k' =
     (if k' = k then slice_at results k @ xs else slice_at results k')"
  by (simp add: appendTo_def slice_at_def)

lemma slice_at_update:
  "slice_at (results(k \<mapsto> xs)) k' = (if k' = k then xs else slice_at results k')"
  by (simp add: slice_at_def)

lemma slice_at_empty: "slice_at Map.empty k = []"
  by (simp add: slice_at_def)

lemma classifyLoop_slice_concat:
  assumes "\<And>results tok. slice_at (classifyToken equalFold results tok) k
             = slice_at results k @ g tok"
  shows "slice_at (classifyLoop equalFold tokens results) k
         = slice_at results k @ concat (map g tokens)"
  by (induction tokens arbitrary: results) (simp_all add: assms)

lemma classifyLoop_slice:
  assumes "\<And>results tok. slice_at (classifyToken equalFold results tok) k
             = slice_at results k @ (if P tok then [Text tok] else [])"
  shows "slice_at (classifyLoop equalFold tokens results) k
         = slice_at results k @ map Text (filter P tokens)"
proof -
  have "concat (map (\<lambda>tok. if P tok then [Text tok] else []) tokens) = map Text (filter P tokens)"
    by (induction tokens) simp_all
  with classifyLoop_slice_concat [of equalFold k "\<lambda>tok. if P tok then [Text tok] else []", OF assms]
  show ?thesis by simp
qed

lemma classifyToken_characters:
  "slice_at (classifyToken equalFold results tok) ''ChineseCharacters''
   = slice_at results ''ChineseCharacters''
     @ (if isChineseText (Text tok) then extractChineseCharacters (Text tok) else [])"
  by (simp add: classifyToken_def Let_def slice_at_appendTo)

lemma categorize_characters:
  "slice_at (categorizeChineseText equalFold tokens) ''ChineseCharacters''
   = concat (map (\<lambda>tok. if isChineseText (Text tok) then extractChineseCharacters (Text tok)
                          else []) tokens)"
  by (simp add: categorizeChineseText_def Let_def slice_at_update slice_at_empty
      classifyLoop_slice_concat [OF classifyToken_characters])

lemma classifyToken_nouns:
  "slice_at (classifyToken equalFold results tok) ''ChineseNouns''
   = slice_at results ''ChineseNouns''
     @ (if isChineseText (Text tok) \<and> Tag tok = ''NN'' then [Text tok] else [])"
  by (simp add: classifyToken_def Let_def slice_at_appendTo)

lemma classifyToken_verbs:
  "slice_at (classifyToken equalFold results tok) ''ChineseVerbs''
   = slice_at results ''ChineseVerbs''
     @ (if isChineseText (Text tok) \<and> Tag tok = ''VB'' then [Text tok] else [])"
  by (simp add: classifyToken_def Let_def slice_at_appendTo)

lemma classifyToken_adjectives:
  "slice_at (classifyToken equalFold results tok) ''ChineseAdjectives''
   = slice_at results ''ChineseAdjectives''
     @ (if isChineseText (Text tok) \<and> Tag tok = ''JJ'' then [Text tok] else [])"
  by (simp add: classifyToken_def Let_def slice_at_appendTo)

lemma classifyToken_adverbs:
  "slice_at (classifyToken equalFold results tok) ''ChineseAdverbs''
   = slice_at results ''ChineseAdverbs''
     @ (if isChineseText (Text tok) \<and> Tag tok = ''RB'' then [Text tok] else [])"
  by (simp add: classifyToken_def Let_def slice_at_appendTo)

lemma classifyToken_other:
  "slice_at (classifyToken equalFold results tok) ''ChineseOtherExpressions''
   = slice_at results ''ChineseOtherExpressions''
     @ (if isChineseText (Text tok) \<and> Tag tok \<notin> {''NN'', ''VB'', ''JJ'', ''RB''}
        then [Text tok] else [])"
  by (simp add: classifyToken_def Let_def slice_at_appendTo)

lemma classifyToken_idioms:
  "slice_at (classifyToken equalFold results tok) ''ChineseIdioms''
   = slice_at results ''ChineseIdioms''
     @ (if isChineseText (Text tok) \<and> matchesPhraseList equalFold (Text tok) idioms
        then [Text tok] else [])"
  by (simp add: classifyToken_def Let_def slice_at_appendTo)

lemma classifyToken_slang:
  "slice_at (classifyToken equalFold results tok) ''ChineseSlang''
   = slice_at results ''ChineseSlang''
     @ (if isChineseText (Text tok) \<and> matchesPhraseList equalFold (Text tok) slang
        then [Text tok] else [])"
  by (simp add: classifyToken_def Let_def slice_at_appendTo)

lemma categorize_nouns:
  "slice_at (categorizeChineseText equalFold tokens) ''ChineseNouns''
   = map Text (filter (\<lambda>t. isChineseText (Text t) \<and> Tag t = ''NN'') tokens)"
  by (simp add: categorizeChineseText_def Let_def slice_at_update slice_at_empty
      classifyLoop_slice [OF classifyToken_nouns])

lemma categorize_verbs:
  "slice_at (categorizeChineseText equalFold tokens) ''ChineseVerbs''
   = map Text (filter (\<lambda>t. isChineseText (Text t) \<and> Tag t = ''VB'') tokens)"
  by (simp add: categorizeChineseText_def Let_def slice_at_update slice_at_empty
      classifyLoop_slice [OF classifyToken_verbs])

lemma categorize_adjectives:
  "slice_at (categorizeChineseText equalFold tokens) ''ChineseAdjectives''
   = map Text (filter (\<lambda>t. isChineseText (Text t) \<and> Tag t = ''JJ'') tokens)"
  by (simp add: categorizeChineseText_def Let_def slice_at_update slice_at_empty
      classifyLoop_slice [OF classifyToken_adjectives])

lemma categorize_adverbs:
  "slice_at (categorizeChineseText equalFold tokens) ''ChineseAdverbs''
   = map Text (filter (\<lambda>t. isChineseText (Text t) \<and> Tag t = ''RB'') tokens)"
  by (simp add: categorizeChineseText_def Let_def slice_at_update slice_at_empty
      classifyLoop_slice [OF classifyToken_adverbs])

lemma categorize_other:
  "slice_at (categorizeChineseText equalFold tokens) ''ChineseOtherExpressions''
   = map Text (filter (\<lambda>t. isChineseText (Text t)
                            \<and> Tag t \<notin> {''NN'', ''VB'', ''JJ'', ''RB''}) tokens)"
  by (simp add: categorizeChineseText_def Let_def slice_at_update slice_at_empty
      classifyLoop_slice [OF classifyToken_other])

lemma categorize_idioms:
  "slice_at (categorizeChineseText equalFold tokens) ''ChineseIdioms''
   = map Text (filter (\<lambda>t. isChineseText (Text t)
                            \<and> matchesPhraseList equalFold (Text t) idioms) tokens)"
  by (simp add: categorizeChineseText_def Let_def slice_at_update slice_at_empty
      classifyLoop_slice [OF classifyToken_idioms])

lemma categorize_slang:
  "slice_at (categorizeChineseText equalFold tokens) ''ChineseSlang''
   = map Text (filter (\<lambda>t. isChineseText (Text t)
                            \<and> matchesPhraseList equalFold (Text t) slang) tokens)"
  by (simp add: categorizeChineseText_def Let_def slice_at_update slice_at_empty
      classifyLoop_slice [OF classifyToken_slang])

lemma matchesPhraseList_iff:
  "matchesPhraseList equalFold phrase list \<longleftrightarrow> (\<exists>item\<in>set list. equalFold item phrase)"
  by (induction list) auto

lemma primary_count:
  "length (filter (\<lambda>t. isChineseText (Text t) \<and> Tag t = ''NN'') tokens)
   + length (filter (\<lambda>t. isChineseText (Text t) \<and> Tag t = ''VB'') tokens)
   + length (filter (\<lambda>t. isChineseText (Text t) \<and> Tag t = ''JJ'') tokens)
   + length (filter (\<lambda>t. isChineseText (Text t) \<and> Tag t = ''RB'') tokens)
   + length (filter (\<lambda>t. isChineseText (Text t)
                          \<and> Tag t \<notin> {''NN'', ''VB'', ''JJ'', ''RB''}) tokens)
   = length (filter (\<lambda>t. isChineseText (Text t)) tokens)"
  by (induction tokens) auto

text \<open>
  Claim C2. For every token stream, each token whose text passes the script filter is
  appended to exactly one of the five primary buckets, once per occurrence: the nouns
  are the texts of the accepted tokens tagged NN, in order; likewise VB for the verbs, JJ
  for the adjectives and RB for the adverbs; every accepted token with another tag
  (determiners and modals among them) goes to the other expressions. The five buckets
  together hold as many entries as there are accepted tokens.
\<close>

theorem primary_buckets:
  "slice_at (categorizeChineseText equalFold tokens) ''ChineseNouns''
     = map Text (filter (\<lambda>t. isChineseText (Text t) \<and> Tag t = ''NN'') tokens)
   \<and> slice_at (categorizeChineseText equalFold tokens) ''ChineseVerbs''
     = map Text (filter (\<lambda>t. isChineseText (Text t) \<and> Tag t = ''VB'') tokens)
   \<and> slice_at (categorizeChineseText equalFold tokens) ''ChineseAdjectives''
     = map Text (filter (\<lambda>t. isChineseText (Text t) \<and> Tag t = ''JJ'') tokens)
   \<and> slice_at (categorizeChineseText equalFold tokens) ''ChineseAdverbs''
     = map Text (filter (\<lambda>t. isChineseText (Text t) \<and> Tag t = ''RB'') tokens)
   \<and> slice_at (categorizeChineseText equalFold tokens) ''ChineseOtherExpressions''
     = map Text (filter (\<lambda>t. isChineseText (Text t)
                              \<and> Tag t \<notin> {''NN'', ''VB'', ''JJ'', ''RB''}) tokens)
   \<and> length (slice_at (categorizeChineseText equalFold tokens) ''ChineseNouns'')
     + length (slice_at (categorizeChineseText equalFold tokens) ''ChineseVerbs'')
     + length (slice_at (categorizeChineseText equalFold tokens) ''ChineseAdjectives'')
     + length (slice_at (categorizeChineseText equalFold tokens) ''ChineseAdverbs'')
     + length (slice_at (categorizeChineseText equalFold tokens) ''ChineseOtherExpressions'')
     = length (filter (\<lambda>t. isChineseText (Text t)) tokens)"
  unfolding categorize_nouns categorize_verbs categorize_adjectives categorize_adverbs
    categorize_other length_map
  using primary_count [of tokens] by simp

text \<open>
  The theorem on a stream of a noun, a determiner, a modal and a token in Latin script:
  the noun is the only noun, the determiner and the modal are the other expressions, no
  bucket holds the Latin token.
\<close>

theorem primary_buckets_witness:
  "slice_at (categorizeChineseText asciiFold
     [\<lparr>Tag = ''NN'', Text = hong, Label = []\<rparr>, \<lparr>Tag = ''DT'', Text = hua, Label = []\<rparr>,
      \<lparr>Tag = ''MD'', Text = xueba, Label = []\<rparr>, \<lparr>Tag = ''NN'', Text = ''abc'', Label = []\<rparr>])
     ''ChineseNouns'' = [hong]
   \<and> slice_at (categorizeChineseText asciiFold
     [\<lparr>Tag = ''NN'', Text = hong, Label = []\<rparr>, \<lparr>Tag = ''DT'', Text = hua, Label = []\<rparr>,
      \<lparr>Tag = ''MD'', Text = xueba, Label = []\<rparr>, \<lparr>Tag = ''NN'', Text = ''abc'', Label = []\<rparr>])
     ''ChineseOtherExpressions'' = [hua, xueba]"
  using primary_buckets [of asciiFold
     "[\<lparr>Tag = ''NN'', Text = hong, Label = []\<rparr>, \<lparr>Tag = ''DT'', Text = hua, Label = []\<rparr>,
       \<lparr>Tag = ''MD'', Text = xueba, Label = []\<rparr>, \<lparr>Tag = ''NN'', Text = ''abc'', Label = []\<rparr>]"]
  by (simp add: isChineseText_examples not_isChineseText_abc)

text \<open>
  Claim C6. For every token that passes the script filter, its text is appended to the
  idioms exactly when \<open>equalFold\<close> relates some entry of the idiom list to the whole
  text, and to the slang exactly when it relates some entry of the slang list to it. The
  tag plays no part: two streams with the same texts give the same idioms and the same
  slang, whatever their tags, so these memberships come on top of the primary bucket.
  Only the whole text is compared, never a part of it.
\<close>

theorem secondary_buckets:
  "slice_at (categorizeChineseText equalFold tokens) ''ChineseIdioms''
     = map Text (filter (\<lambda>t. isChineseText (Text t)
                              \<and> (\<exists>item\<in>set idioms. equalFold item (Text t))) tokens)
   \<and> slice_at (categorizeChineseText equalFold tokens) ''ChineseSlang''
     = map Text (filter (\<lambda>t. isChineseText (Text t)
                              \<and> (\<exists>item\<in>set slang. equalFold item (Text t))) tokens)
   \<and> (matchesPhraseList equalFold phrase list \<longleftrightarrow> (\<exists>item\<in>set list. equalFold item phrase))
   \<and> (map Text tokens' = map Text tokens \<longrightarrow>
        slice_at (categorizeChineseText equalFold tokens') ''ChineseIdioms''
          = slice_at (categorizeChineseText equalFold tokens) ''ChineseIdioms''
        \<and> slice_at (categorizeChineseText equalFold tokens') ''ChineseSlang''
          = slice_at (categorizeChineseText equalFold tokens) ''ChineseSlang'')"
proof -
  have i: "slice_at (categorizeChineseText equalFold ts) ''ChineseIdioms''
      = filter (\<lambda>x. isChineseText x \<and> (\<exists>item\<in>set idioms. equalFold item x)) (map Text ts)"
    for ts
    by (simp add: categorize_idioms matchesPhraseList_iff filter_map comp_def)
  have s: "slice_at (categorizeChineseText equalFold ts) ''ChineseSlang''
      = filter (\<lambda>x. isChineseText x \<and> (\<exists>item\<in>set slang. equalFold item x)) (map Text ts)"
    for ts
    by (simp add: categorize_slang matchesPhraseList_iff filter_map comp_def)
  show ?thesis
    by (simp add: i s matchesPhraseList_iff) (simp add: filter_map comp_def)
qed

text \<open>
  The theorem on two streams with the same texts and different tags: U+5B66 U+9738 is
  slang in both, and it is also a noun of the first; U+7EA2 is in no list.
\<close>

lemma slang_examples:
  "\<exists>item\<in>set slang. asciiFold item xueba" "\<not> (\<exists>item\<in>set slang. asciiFold item hong)"
  by (simp_all add: slang_def asciiFold_def asciiLower_def xueba_def hong_def)

theorem secondary_buckets_witness:
  "slice_at (categorizeChineseText asciiFold
     [\<lparr>Tag = ''VB'', Text = xueba, Label = []\<rparr>, \<lparr>Tag = ''JJ'', Text = hong, Label = []\<rparr>])
     ''ChineseSlang'' = [xueba]
   \<and> slice_at (categorizeChineseText asciiFold
     [\<lparr>Tag = ''NN'', Text = xueba, Label = []\<rparr>, \<lparr>Tag = ''NN'', Text = hong, Label = []\<rparr>])
     ''ChineseSlang'' = [xueba]
   \<and> slice_at (categorizeChineseText asciiFold
     [\<lparr>Tag = ''NN'', Text = xueba, Label = []\<rparr>, \<lparr>Tag = ''NN'', Text = hong, Label = []\<rparr>])
     ''ChineseNouns'' = [xueba, hong]"
  using secondary_buckets [of asciiFold
      "[\<lparr>Tag = ''NN'', Text = xueba, Label = []\<rparr>, \<lparr>Tag = ''NN'', Text = hong, Label = []\<rparr>]"
      xueba slang
      "[\<lparr>Tag = ''VB'', Text = xueba, Label = []\<rparr>, \<lparr>Tag = ''JJ'', Text = hong, Label = []\<rparr>]"]
  by (simp add: isChineseText_examples slang_examples categorize_nouns)


section \<open>The ranker\<close>

lemma rank_props:
  assumes "rank tab content out"
  shows "distinct out" and "set out = capitalizePhrase tab ` set content"
    and "sorted_wrt (\<lambda>a b. occurrences tab content b \<le> occurrences tab content a) out"
  using sortByFrequency_props [OF assms [unfolded rank_def]]
  by (simp_all add: countFrequencies_dom countFrequencies_freq)



lemma distinct_pair:
  assumes "distinct out" and "set out = {a, b}" and "a \<noteq> b"
  shows "out = [a, b] \<or> out = [b, a]"
proof -
  have "length out = card {a, b}" using assms(1,2) by (metis distinct_card)
  with assms(3) have "length out = 2" by simp
  then obtain x y where out: "out = [x, y]"
    by (cases out; cases "tl out") auto
  with assms(2) have "{x, y} = {a, b}" by simp
  then show ?thesis unfolding out by (auto simp: doubleton_eq_iff)
qed

lemma rank_example:
  assumes "han_caseless tab"
  shows "rank tab [xueba, xueba, zhainan] out \<longleftrightarrow> out = [xueba, zhainan]"
proof -
  let ?c = "[xueba, xueba, zhainan]"
  have cap: "capitalizePhrase tab xueba = xueba" "capitalizePhrase tab zhainan = zhainan"
    using assms by (simp_all add: capitalizePhrase_chinese isChineseText_examples)
  have ne: "xueba \<noteq> zhainan" "zhainan \<noteq> xueba" using examples_distinct(1) by auto
  have occ: "occurrences tab ?c xueba = 2" "occurrences tab ?c zhainan = 1"
    by (simp_all add: occurrences_def cap ne)
  have img: "capitalizePhrase tab ` set ?c = {xueba, zhainan}" by (simp add: cap)
  show ?thesis
  proof
    assume r: "rank tab ?c out"
    note p = rank_props [OF r]
    from p(1) p(2) [unfolded img] ne(1) have "out = [xueba, zhainan] \<or> out = [zhainan, xueba]"
      by (rule distinct_pair)
    moreover have "out \<noteq> [zhainan, xueba]" using p(3) by (auto simp: occ)
    ultimately show "out = [xueba, zhainan]" by simp
  next
    assume out: "out = [xueba, zhainan]"
    have "map_of [(xueba, 2), (zhainan, 1)] = countFrequencies tab ?c"
    proof
      fix k
      show "map_of [(xueba, 2), (zhainan, 1)] k = countFrequencies tab ?c k"
        unfolding countFrequencies_lookup img using occ by auto
    qed
    then have "range_map (countFrequencies tab ?c) [(xueba, 2), (zhainan, 1)]"
      using ne by (simp add: range_map_def)
    moreover have "sort_Slice (\<lambda>i j. snd i > snd j)
        [(xueba, 2::nat), (zhainan, 1)] [(xueba, 2), (zhainan, 1)]"
      by (simp add: sort_Slice_def)
    ultimately have "sortByFrequency (countFrequencies tab ?c)
        (map fst [(xueba, 2::nat), (zhainan, 1)])"
      by (rule sortByFrequencyI)
    then show "rank tab ?c out" by (simp add: rank_def out)
  qed
qed




section \<open>Two runs on the same input\<close>

lemma freq_countFrequencies: "freq (countFrequencies tab content) = occurrences tab content"
  by (rule ext) (rule countFrequencies_freq)

lemma rank_agree:
  assumes "rank tab content out1" and "rank tab content out2"
  shows "mset out1 = mset out2"
    and "map (occurrences tab content) out1 = map (occurrences tab content) out2"
    and "inj_on (occurrences tab content) (capitalizePhrase tab ` set content) \<Longrightarrow> out1 = out2"
  using sortByFrequency_agree [OF assms [unfolded rank_def]]
  by (simp_all add: freq_countFrequencies countFrequencies_dom)

lemma rank_tie:
  assumes "han_caseless tab" and "isChineseText a" and "isChineseText b" and "a \<noteq> b"
  shows "rank tab [a, b] [a, b]" and "rank tab [a, b] [b, a]"
proof -
  have cap: "capitalizePhrase tab a = a" "capitalizePhrase tab b = b"
    using assms by (simp_all add: capitalizePhrase_chinese)
  have ne: "b \<noteq> a" using assms(4) by auto
  have occ: "occurrences tab [a, b] a = 1" "occurrences tab [a, b] b = 1"
    using assms(4) ne by (simp_all add: occurrences_def cap)
  have img: "capitalizePhrase tab ` set [a, b] = {a, b}" by (simp add: cap)
  have m1: "map_of [(a, 1), (b, 1)] = countFrequencies tab [a, b]"
  proof
    fix k
    show "map_of [(a, 1), (b, 1)] k = countFrequencies tab [a, b] k"
      unfolding countFrequencies_lookup img using occ by auto
  qed
  have m2: "map_of [(b, 1), (a, 1)] = countFrequencies tab [a, b]"
  proof
    fix k
    show "map_of [(b, 1), (a, 1)] k = countFrequencies tab [a, b] k"
      unfolding countFrequencies_lookup img using occ by auto
  qed
  have r1: "range_map (countFrequencies tab [a, b]) [(a, 1), (b, 1)]"
    using m1 assms(4) by (simp add: range_map_def)
  have r2: "range_map (countFrequencies tab [a, b]) [(b, 1), (a, 1)]"
    using m2 ne by (simp add: range_map_def)
  have s1: "sort_Slice (\<lambda>i j. snd i > snd j) [(a, 1::nat), (b, 1)] [(a, 1), (b, 1)]"
    by (simp add: sort_Slice_def)
  have s2: "sort_Slice (\<lambda>i j. snd i > snd j) [(b, 1::nat), (a, 1)] [(b, 1), (a, 1)]"
    by (simp add: sort_Slice_def)
  from sortByFrequencyI [OF r1 s1] show "rank tab [a, b] [a, b]" by (simp add: rank_def)
  from sortByFrequencyI [OF r2 s2] show "rank tab [a, b] [b, a]" by (simp add: rank_def)
qed

text \<open>
  Claim C3, as stated, fails. On the stream of the single token U+5403 U+571F (with any
  tag; NN here) the characters U+5403 and U+571F occur once each, and a run may write
  them to the file of the characters in either order: the map is ranged over in an order
  the runtime chooses, and the sort has no key beyond the count.
\<close>

theorem outputLines_order_counterexample:
  "outputLines latin1_upper asciiFold [\<lparr>Tag = ''NN'', Text = chitu, Label = []\<rparr>]
     ''ChineseCharacters'' [[CHR 0xE5, CHR 0x90, CHR 0x83], [CHR 0xE5, CHR 0x9C, CHR 0x9F]]
   \<and> outputLines latin1_upper asciiFold [\<lparr>Tag = ''NN'', Text = chitu, Label = []\<rparr>]
     ''ChineseCharacters'' [[CHR 0xE5, CHR 0x9C, CHR 0x9F], [CHR 0xE5, CHR 0x90, CHR 0x83]]
   \<and> [[CHR 0xE5, CHR 0x90, CHR 0x83], [CHR 0xE5, CHR 0x9C, CHR 0x9F]]
     \<noteq> [[CHR 0xE5, CHR 0x9C, CHR 0x9F], [CHR 0xE5, CHR 0x90, CHR 0x83]]"
proof -
  let ?chi = "[CHR 0xE5, CHR 0x90, CHR 0x83]" and ?tu = "[CHR 0xE5, CHR 0x9C, CHR 0x9F]"
  have x: "extractChineseCharacters chitu = [?chi, ?tu]"
    by (simp add: extractChineseCharacters_eq runes_examples han_def encoderune_def
        char_of_eq_iff)
  have c: "isChineseText ?chi" "isChineseText ?tu"
    by (simp_all add: isChineseText_def runes_def range_string.simps decoderune_def cont_def
        payload_def han_def)
  have ne: "?chi \<noteq> ?tu" by simp
  from rank_tie [OF han_caseless_latin1_upper c ne]
  show ?thesis
    by (simp add: outputLines_def categorize_characters isChineseText_examples x)
qed

text \<open>
  Claim C3, amended. Two runs on the same token stream write, for every category, the
  same lines with the same counts at the same positions, in descending order of count:
  the two files can differ only in the order of lines of equal count. When no two
  distinct items of the category have the same count, the two files are identical.
\<close>

theorem outputLines_agree:
  assumes "outputLines tab equalFold tokens category out1"
    and "outputLines tab equalFold tokens category out2"
  shows "mset out1 = mset out2
    \<and> map (occurrences tab (slice_at (categorizeChineseText equalFold tokens) category)) out1
      = map (occurrences tab (slice_at (categorizeChineseText equalFold tokens) category)) out2
    \<and> sorted_wrt (\<lambda>a b. occurrences tab (slice_at (categorizeChineseText equalFold tokens) category) b
                        \<le> occurrences tab (slice_at (categorizeChineseText equalFold tokens) category) a) out1
    \<and> (inj_on (occurrences tab (slice_at (categorizeChineseText equalFold tokens) category))
          (capitalizePhrase tab ` set (slice_at (categorizeChineseText equalFold tokens) category))
        \<longrightarrow> out1 = out2)"
  using rank_agree [OF assms [unfolded outputLines_def]]
    rank_props(3) [OF assms(1) [unfolded outputLines_def]]
  by simp

text \<open>
  The theorem on the stream of the nouns U+5B66 U+9738, U+5B66 U+9738, U+5B85 U+7537,
  whose counts 2 and 1 differ.
\<close>

theorem outputLines_agree_witness:
  "outputLines latin1_upper asciiFold
     [\<lparr>Tag = ''NN'', Text = xueba, Label = []\<rparr>, \<lparr>Tag = ''NN'', Text = xueba, Label = []\<rparr>,
      \<lparr>Tag = ''NN'', Text = zhainan, Label = []\<rparr>]
     ''ChineseNouns'' [xueba, zhainan]
   \<and> map (occurrences latin1_upper [xueba, xueba, zhainan]) [xueba, zhainan] = [2, 1]"
proof -
  let ?toks = "[\<lparr>Tag = ''NN'', Text = xueba, Label = []\<rparr>, \<lparr>Tag = ''NN'', Text = xueba, Label = []\<rparr>,
      \<lparr>Tag = ''NN'', Text = zhainan, Label = []\<rparr>]"
  have s: "slice_at (categorizeChineseText asciiFold ?toks) ''ChineseNouns'' = [xueba, xueba, zhainan]"
    by (simp add: categorize_nouns isChineseText_examples)
  have h: "outputLines latin1_upper asciiFold ?toks ''ChineseNouns'' [xueba, zhainan]"
    using rank_example [OF han_caseless_latin1_upper, of "[xueba, zhainan]"]
    by (simp add: outputLines_def s)
  have cap: "capitalizePhrase latin1_upper xueba = xueba"
    "capitalizePhrase latin1_upper zhainan = zhainan"
    using han_caseless_latin1_upper
    by (simp_all add: capitalizePhrase_chinese isChineseText_examples)
  have ne: "xueba \<noteq> zhainan" "zhainan \<noteq> xueba" using examples_distinct(1) by auto
  have occ: "map (occurrences latin1_upper [xueba, xueba, zhainan]) [xueba, zhainan] = [2, 1]"
    by (simp add: occurrences_def cap ne)
  show ?thesis
    using outputLines_agree [OF h h] h occ by simp
qed


section \<open>Capitalisation of Chinese items\<close>

text \<open>
  Claim C9, as stated, fails. The string of the bytes of U+5B66 followed by the byte
  0xFF starts with a Han character, yet \<open>capitalizePhrase\<close> changes it: the
  conversion to runes and back replaces the ill-formed byte by the three bytes of
  U+FFFD.
\<close>

theorem capitalizePhrase_ill_formed_counterexample:
  "han (hd (runes [CHR 0xE5, CHR 0xAD, CHR 0xA6, CHR 0xFF]))
   \<and> capitalizePhrase latin1_upper [CHR 0xE5, CHR 0xAD, CHR 0xA6, CHR 0xFF]
     = [CHR 0xE5, CHR 0xAD, CHR 0xA6, CHR 0xEF, CHR 0xBF, CHR 0xBD]
   \<and> capitalizePhrase latin1_upper [CHR 0xE5, CHR 0xAD, CHR 0xA6, CHR 0xFF]
     \<noteq> [CHR 0xE5, CHR 0xAD, CHR 0xA6, CHR 0xFF]"
proof -
  have r: "runes [CHR 0xE5, CHR 0xAD, CHR 0xA6, CHR 0xFF] = [0x5B66, 0xFFFD]"
    by (simp add: runes_def range_string.simps decoderune_def cont_def payload_def runeError_def)
  have u: "toUpper latin1_upper 0x5B66 = 0x5B66"
    by (simp add: toUpper_def latin1_upper_def)
  have e: "string_of_runes [0x5B66, 0xFFFD] = [CHR 0xE5, CHR 0xAD, CHR 0xA6, CHR 0xEF, CHR 0xBF, CHR 0xBD]"
    by (simp add: string_of_runes_def encoderune_def char_of_eq_iff)
  show ?thesis
    by (simp add: capitalizePhrase_def r u e han_def)
qed

text \<open>
  Claim C9, amended. Let the case table map every Han character to itself, as the
  Unicode tables do. Then \<open>capitalizePhrase s = s\<close> for every well-formed UTF-8 string
  \<open>s\<close> that is empty or starts with a Han character, and for every string that passes
  the script filter. So the ranker's normalisation is the identity on the items that
  passed the script filter, and a ranking of such items consists of these items, with
  their texts as they were.
\<close>

theorem capitalizePhrase_identity:
  assumes "han_caseless tab"
  shows "(valid_utf8 s \<and> (s = [] \<or> han (hd (runes s))) \<longrightarrow> capitalizePhrase tab s = s)
    \<and> (isChineseText s \<longrightarrow> capitalizePhrase tab s = s)
    \<and> ((\<forall>item\<in>set content. isChineseText item) \<and> rank tab content out
        \<longrightarrow> set out = set content)"
proof (intro conjI impI)
  assume a: "valid_utf8 s \<and> (s = [] \<or> han (hd (runes s)))"
  then have "s = [] \<or> toUpper tab (hd (runes s)) = hd (runes s)"
    using toUpper_han [OF assms] by auto
  with a show "capitalizePhrase tab s = s" by (simp add: capitalizePhrase_fixed)
next
  assume "isChineseText s"
  with assms show "capitalizePhrase tab s = s" by (rule capitalizePhrase_chinese)
next
  assume a: "(\<forall>item\<in>set content. isChineseText item) \<and> rank tab content out"
  then have "capitalizePhrase tab ` set content = set content"
    using capitalizePhrase_chinese [OF assms] by auto
  with a show "set out = set content" using rank_props(2) [of tab content out] by simp
qed

text \<open>
  The theorem with the Latin-1 instance of the case table, at the well-formed string
  U+5B66 U+9738 and at the ranking of the example list.
\<close>

theorem capitalizePhrase_identity_witness:
  "han_caseless latin1_upper
   \<and> valid_utf8 xueba \<and> han (hd (runes xueba)) \<and> isChineseText xueba
   \<and> capitalizePhrase latin1_upper xueba = xueba
   \<and> rank latin1_upper [xueba, xueba, zhainan] [xueba, zhainan]
   \<and> set [xueba, zhainan] = set [xueba, xueba, zhainan]"
proof -
  have v: "valid_utf8 xueba" using isChineseText_examples(1) by (rule isChineseText_valid)
  have h: "han (hd (runes xueba))" by (simp add: runes_examples han_def)
  have r: "rank latin1_upper [xueba, xueba, zhainan] [xueba, zhainan]"
    using rank_example [OF han_caseless_latin1_upper, of "[xueba, zhainan]"] by simp
  show ?thesis
    using capitalizePhrase_identity [OF han_caseless_latin1_upper, of xueba
        "[xueba, xueba, zhainan]" "[xueba, zhainan]"]
      han_caseless_latin1_upper v h r
    by (simp add: isChineseText_examples)
qed


section \<open>Phrase chunking\<close>

lemma runs_props:
  "\<forall>g\<in>set (runs P xs). g \<noteq> [] \<and> (\<forall>x\<in>set g. P x) \<and> (\<exists>pre post. xs = pre @ g @ post)"
proof (induction P xs rule: runs.induct)
  case (1 P)
  show ?case by simp
next
  case (2 P x xs)
  show ?case
  proof (cases "P x")
    case True
    have whole: "takeWhile P xs @ dropWhile P xs = xs" by (rule takeWhile_dropWhile_id)
    show ?thesis
    proof
      fix g
      assume "g \<in> set (runs P (x # xs))"
      with True have "g = x # takeWhile P xs \<or> g \<in> set (runs P (dropWhile P xs))" by simp
      then show "g \<noteq> [] \<and> (\<forall>y\<in>set g. P y) \<and> (\<exists>pre post. x # xs = pre @ g @ post)"
      proof
        assume g: "g = x # takeWhile P xs"
        have "\<forall>y\<in>set (takeWhile P xs). P y" by (blast dest: set_takeWhileD)
        with True have "\<forall>y\<in>set g. P y" by (simp add: g)
        moreover have "x # xs = [] @ g @ dropWhile P xs" by (simp add: g whole)
        then have "\<exists>pre post. x # xs = pre @ g @ post" by blast
        ultimately show ?thesis by (simp add: g)
      next
        assume "g \<in> set (runs P (dropWhile P xs))"
        with 2(1) [OF True] have q: "g \<noteq> []" "\<forall>y\<in>set g. P y"
          and "\<exists>pre post. dropWhile P xs = pre @ g @ post" by blast+
        then obtain pre post where "dropWhile P xs = pre @ g @ post" by blast
        then have "x # xs = (x # takeWhile P xs @ pre) @ g @ post"
          using whole by (simp flip: append_assoc)
        then have "\<exists>pre post. x # xs = pre @ g @ post" by blast
        with q show ?thesis by simp
      qed
    qed
  next
    case False
    show ?thesis
    proof
      fix g
      assume "g \<in> set (runs P (x # xs))"
      with False have "g \<in> set (runs P xs)" by simp
      with 2(2) [OF False] have q: "g \<noteq> []" "\<forall>y\<in>set g. P y"
        and "\<exists>pre post. xs = pre @ g @ post" by blast+
      then obtain pre post where "xs = pre @ g @ post" by blast
      then have "x # xs = (x # pre) @ g @ post" by simp
      then have "\<exists>pre post. x # xs = pre @ g @ post" by blast
      with q show "g \<noteq> [] \<and> (\<forall>y\<in>set g. P y) \<and> (\<exists>pre post. x # xs = pre @ g @ post)"
        by simp
    qed
  qed
qed

lemma concat_runs: "concat (runs P xs) = filter P xs"
proof (induction P xs rule: runs.induct)
  case (1 P)
  show ?case by simp
next
  case (2 P x xs)
  show ?case
  proof (cases "P x")
    case True
    have t: "filter P (takeWhile P xs) = takeWhile P xs"
      unfolding filter_id_conv by (auto dest: set_takeWhileD)
    have "filter P xs = filter P (takeWhile P xs @ dropWhile P xs)" by simp
    also have "\<dots> = takeWhile P xs @ filter P (dropWhile P xs)"
      unfolding filter_append t ..
    finally show ?thesis using True 2(1) [OF True] by simp
  next
    case False
    then show ?thesis using 2(2) [OF False] by simp
  qed
qed

text \<open>The result of the chunker for a loop that starts in any state.\<close>

definition flush :: "string list \<times> string list \<Rightarrow> string list" where
  "flush st = (case st of (phrases, currentPhrase) \<Rightarrow>
     if 0 < length currentPhrase then phrases @ [join currentPhrase '' ''] else phrases)"

lemma chunkPhrases_flush: "chunkPhrases grp tokens = flush (chunkLoop grp tokens [] [])"
  by (simp add: chunkPhrases_def flush_def)

lemma chunkLoop_filter:
  "chunkLoop grp (filter (\<lambda>t. isChineseText (Text t)) tokens) phrases cur
   = chunkLoop grp tokens phrases cur"
  by (induction tokens arbitrary: phrases cur) simp_all

lemma chunkLoop_append:
  "chunkLoop grp (xs @ ys) phrases cur =
     (case chunkLoop grp xs phrases cur of (phrases', cur') \<Rightarrow> chunkLoop grp ys phrases' cur')"
  by (induction xs arbitrary: phrases cur) simp_all

lemma chunkLoop_run:
  "\<forall>t\<in>set run. isChineseText (Text t) \<and> grp (Tag t) \<Longrightarrow>
   chunkLoop grp run phrases cur = (phrases, cur @ map Text run)"
  by (induction run arbitrary: cur) simp_all

lemma flush_chunkLoop:
  "flush (chunkLoop grp tokens phrases cur) =
     phrases @
     (let chinese = filter (\<lambda>t. isChineseText (Text t)) tokens;
          P = (\<lambda>t. grp (Tag t))
      in if cur = [] then map (\<lambda>g. join (map Text g) '' '') (runs P chinese)
         else join (cur @ map Text (takeWhile P chinese)) '' ''
              # map (\<lambda>g. join (map Text g) '' '') (runs P (dropWhile P chinese)))"
proof (induction tokens arbitrary: phrases cur)
  case Nil
  show ?case by (simp add: flush_def)
next
  case (Cons t tokens)
  show ?case
  proof (cases "isChineseText (Text t)")
    case False
    then show ?thesis using Cons [of phrases cur] by simp
  next
    case True
    show ?thesis
    proof (cases "grp (Tag t)")
      case g: True
      show ?thesis
        using True g Cons [of phrases "cur @ [Text t]"] by (simp add: Let_def)
    next
      case g: False
      show ?thesis
      proof (cases "cur = []")
        case c: True
        show ?thesis using True g c Cons [of phrases "[]"] by (simp add: Let_def)
      next
        case c: False
        show ?thesis
          using True g c Cons [of "phrases @ [join cur '' '']" "[]"] by (simp add: Let_def)
      qed
    qed
  qed
qed

lemma chunkPhrases_eq_runs:
  "chunkPhrases grp tokens =
     map (\<lambda>g. join (map Text g) '' '')
       (runs (\<lambda>t. grp (Tag t)) (filter (\<lambda>t. isChineseText (Text t)) tokens))"
  using flush_chunkLoop [of grp tokens "[]" "[]"] by (simp add: chunkPhrases_flush Let_def)

lemma chunkPhrases_filter:
  "chunkPhrases grp (filter (\<lambda>t. isChineseText (Text t)) tokens) = chunkPhrases grp tokens"
  by (simp add: chunkPhrases_flush chunkLoop_filter)

text \<open>
  Claim C1, as stated, fails. On the stream of the nouns U+7EA2, \<open>abc\<close>, U+82B1 the
  middle token fails the script filter, and the only noun phrase joins the tokens before
  and after it: the loop skips such a token and leaves the pending phrase as it is.
\<close>

theorem extractNounPhrases_span_counterexample:
  "\<not> isChineseText ''abc''
   \<and> extractNounPhrases
       [\<lparr>Tag = ''NN'', Text = hong, Label = []\<rparr>, \<lparr>Tag = ''NN'', Text = ''abc'', Label = []\<rparr>,
        \<lparr>Tag = ''NN'', Text = hua, Label = []\<rparr>]
     = [hong @ '' '' @ hua]"
  by (simp add: not_isChineseText_abc extractNounPhrases_def chunkPhrases_def nounGroup_def
      isChineseText_examples)

text \<open>
  Claim C1, amended. For every token stream and either tag group, a token whose text
  fails the script filter is skipped and leaves the pending buffer as it is: the chunker
  gives the result it gives on the stream without such tokens. A token that passes the
  filter with a tag outside the group is a boundary: it ends the pending phrase and is
  itself skipped. So the phrases are the maximal runs of consecutive in-group tokens of
  the stream of accepted tokens, each joined with single spaces: every phrase has at
  least one token, all its tokens are accepted and in the group, they stand next to each
  other in the stream of accepted tokens (no phrase spans an accepted token outside the
  group), and every accepted in-group token is in a phrase.
\<close>

theorem chunkPhrases_runs:
  "extractNounPhrases tokens =
     map (\<lambda>g. join (map Text g) '' '')
       (runs (\<lambda>t. nounGroup (Tag t)) (filter (\<lambda>t. isChineseText (Text t)) tokens))
   \<and> extractVerbPhrases tokens =
     map (\<lambda>g. join (map Text g) '' '')
       (runs (\<lambda>t. verbGroup (Tag t)) (filter (\<lambda>t. isChineseText (Text t)) tokens))
   \<and> extractNounPhrases (filter (\<lambda>t. isChineseText (Text t)) tokens) = extractNounPhrases tokens
   \<and> extractVerbPhrases (filter (\<lambda>t. isChineseText (Text t)) tokens) = extractVerbPhrases tokens
   \<and> (\<forall>g\<in>set (runs P xs). g \<noteq> [] \<and> (\<forall>x\<in>set g. P x) \<and> (\<exists>pre post. xs = pre @ g @ post))
   \<and> concat (runs P xs) = filter P xs"
  using runs_props [of P xs]
  by (simp add: extractNounPhrases_def extractVerbPhrases_def chunkPhrases_filter
      concat_runs flip: chunkPhrases_eq_runs)

text \<open>
  The theorem on a stream of an adjective, a Latin token, a noun, a verb and a noun: the
  Latin token does not end the first noun phrase, the verb does.
\<close>

theorem chunkPhrases_runs_witness:
  "extractNounPhrases
     [\<lparr>Tag = ''JJ'', Text = hong, Label = []\<rparr>, \<lparr>Tag = ''NN'', Text = ''abc'', Label = []\<rparr>,
      \<lparr>Tag = ''NN'', Text = hua, Label = []\<rparr>, \<lparr>Tag = ''VB'', Text = chitu, Label = []\<rparr>,
      \<lparr>Tag = ''NN'', Text = xueba, Label = []\<rparr>]
   = [hong @ '' '' @ hua, xueba]
   \<and> runs (\<lambda>n. 0 < n) [1, 2, 0, 3 :: nat] = [[1, 2], [3]]"
  using chunkPhrases_runs [of
     "[\<lparr>Tag = ''JJ'', Text = hong, Label = []\<rparr>, \<lparr>Tag = ''NN'', Text = ''abc'', Label = []\<rparr>,
       \<lparr>Tag = ''NN'', Text = hua, Label = []\<rparr>, \<lparr>Tag = ''VB'', Text = chitu, Label = []\<rparr>,
       \<lparr>Tag = ''NN'', Text = xueba, Label = []\<rparr>]" "\<lambda>n. 0 < n" "[1, 2, 0, 3 :: nat]"]
  by (simp add: isChineseText_examples not_isChineseText_abc nounGroup_def)

text \<open>
  Claim C5. For every token stream, a pending buffer that is not empty when the stream
  ends is flushed as one last phrase, joined with single spaces. So when further accepted
  in-group tokens follow a stream, the last phrase is the buffer as it stood before them
  followed by their texts, though no boundary token comes after; a stream that consists
  of accepted in-group tokens gives that one phrase. In particular two tokens with the
  texts U+7EA2 and U+82B1, both tagged in the noun group, give exactly the phrase U+7EA2,
  space, U+82B1.
\<close>

theorem chunkPhrases_trailing_flush:
  assumes "chunkLoop grp tokens [] [] = (phrases, cur)"
  shows "(cur \<noteq> [] \<longrightarrow> chunkPhrases grp tokens = phrases @ [join cur '' ''])
    \<and> (run \<noteq> [] \<and> (\<forall>t\<in>set run. isChineseText (Text t) \<and> grp (Tag t)) \<longrightarrow>
         chunkPhrases grp (tokens @ run) = phrases @ [join (cur @ map Text run) '' '']
         \<and> chunkPhrases grp run = [join (map Text run) '' ''])
    \<and> (nounGroup tag1 \<and> nounGroup tag2 \<longrightarrow>
         extractNounPhrases
           [\<lparr>Tag = tag1, Text = hong, Label = l1\<rparr>, \<lparr>Tag = tag2, Text = hua, Label = l2\<rparr>]
         = [hong @ '' '' @ hua])"
proof -
  have a: "chunkPhrases grp tokens = phrases @ [join cur '' '']" if "cur \<noteq> []"
    using assms that by (simp add: chunkPhrases_flush flush_def)
  have b: "chunkPhrases grp (tokens @ run) = phrases @ [join (cur @ map Text run) '' '']
      \<and> chunkPhrases grp run = [join (map Text run) '' '']"
    if "run \<noteq> [] \<and> (\<forall>t\<in>set run. isChineseText (Text t) \<and> grp (Tag t))"
    using assms that
    by (simp add: chunkPhrases_flush chunkLoop_append chunkLoop_run flush_def)
  have c: "extractNounPhrases
           [\<lparr>Tag = tag1, Text = hong, Label = l1\<rparr>, \<lparr>Tag = tag2, Text = hua, Label = l2\<rparr>]
         = [hong @ '' '' @ hua]" if "nounGroup tag1 \<and> nounGroup tag2"
    using that
    by (simp add: extractNounPhrases_def chunkPhrases_flush chunkLoop_run flush_def
        isChineseText_examples)
  from a b c show ?thesis by blast
qed

text \<open>
  The theorem on the stream of a verb, a noun and a token in Latin script, whose buffer
  holds the noun at the end, and on the stream of the claim, tagged as a noun and an
  adjective, after it.
\<close>

theorem chunkPhrases_trailing_flush_witness:
  "chunkPhrases nounGroup
     [\<lparr>Tag = ''VB'', Text = chitu, Label = []\<rparr>, \<lparr>Tag = ''NN'', Text = xueba, Label = []\<rparr>,
      \<lparr>Tag = ''NN'', Text = ''abc'', Label = []\<rparr>]
   = [xueba]
   \<and> chunkPhrases nounGroup
     ([\<lparr>Tag = ''VB'', Text = chitu, Label = []\<rparr>, \<lparr>Tag = ''NN'', Text = xueba, Label = []\<rparr>,
       \<lparr>Tag = ''NN'', Text = ''abc'', Label = []\<rparr>]
      @ [\<lparr>Tag = ''NN'', Text = hong, Label = []\<rparr>, \<lparr>Tag = ''JJ'', Text = hua, Label = []\<rparr>])
   = [xueba @ '' '' @ hong @ '' '' @ hua]
   \<and> extractNounPhrases
     [\<lparr>Tag = ''NN'', Text = hong, Label = []\<rparr>, \<lparr>Tag = ''JJ'', Text = hua, Label = []\<rparr>]
   = [hong @ '' '' @ hua]"
proof -
  have l: "chunkLoop nounGroup
      [\<lparr>Tag = ''VB'', Text = chitu, Label = []\<rparr>, \<lparr>Tag = ''NN'', Text = xueba, Label = []\<rparr>,
       \<lparr>Tag = ''NN'', Text = ''abc'', Label = []\<rparr>] [] [] = ([], [xueba])"
    by (simp add: isChineseText_examples not_isChineseText_abc nounGroup_def)
  show ?thesis
    using chunkPhrases_trailing_flush [OF l, of
        "[\<lparr>Tag = ''NN'', Text = hong, Label = []\<rparr>, \<lparr>Tag = ''JJ'', Text = hua, Label = []\<rparr>]"
        "''NN''" "''JJ''" "[]" "[]"]
    by (simp add: isChineseText_examples nounGroup_def)
qed


end
